theory Spec2Isabelle
  imports Main
begin

section \<open>The ret2spec demonstrations: program state and primitive operations\<close>

text \<open>
  Two programs are embedded: \<^verbatim>\<open>demos/ret2spec_sa.cc\<close> (one process, suffix \<open>_sa\<close>) and
  \<^verbatim>\<open>demos/ret2spec_recursion_ca.cc\<close> (two processes, suffix \<open>_ca\<close>). Both define
  \<^verbatim>\<open>ReturnsFalse\<close>, \<^verbatim>\<open>ReturnsTrue\<close>, \<^verbatim>\<open>LeakByte\<close> and \<^verbatim>\<open>main\<close>; the suffix
  tells them apart. The semantics is the architectural one: no speculation.

  Addresses are integers. The globals of the programs are the fields of \<open>state\<close>; the data
  cache is the set of cached line numbers. Two ghost components record the execution:
  \<open>live\<close> counts the activations of \<^verbatim>\<open>ReturnsTrue\<close> that have been entered and have not
  returned, and \<open>trace\<close> lists every operation in program order, each with the value of
  \<open>live\<close> and the length of \<^verbatim>\<open>stack_mark_pointers\<close> right after it.
\<close>

datatype event =
    Call int            \<comment> \<open>entry of \<^verbatim>\<open>ReturnsTrue(counter)\<close>\<close>
  | Push int            \<comment> \<open>\<^verbatim>\<open>stack_mark_pointers.push_back(p)\<close>\<close>
  | Pop                 \<comment> \<open>\<^verbatim>\<open>stack_mark_pointers.pop_back()\<close>\<close>
  | Back int            \<comment> \<open>\<^verbatim>\<open>stack_mark_pointers.back()\<close> and the pointer it gave\<close>
  | Flush int           \<comment> \<open>\<^verbatim>\<open>CLFlush(p)\<close>\<close>
  | FlushRange int int  \<comment> \<open>\<^verbatim>\<open>FlushFromDataCache(begin, end)\<close>\<close>
  | Yield               \<comment> \<open>\<^verbatim>\<open>sched_yield()\<close>\<close>
  | ForceRead int       \<comment> \<open>\<^verbatim>\<open>ForceRead(p)\<close>\<close>
  | OracleFlushed       \<comment> \<open>\<^verbatim>\<open>sidechannel.FlushOracle()\<close>\<close>
  | HitAdded bool char  \<comment> \<open>\<^verbatim>\<open>sidechannel.AddHitAndRecomputeScores()\<close> and the pair it gave\<close>

record state =
  stack_mark_pointers :: "int list"
  current_offset :: nat
  oracle_ptr :: int
  false_value :: bool
  cache :: "int set"
  cout :: string
  cerr :: string
  live :: nat
  trace :: "(event \<times> nat \<times> nat) list"

text \<open>
  How a run can stop without returning. The first three are the three calls of
  \<^verbatim>\<open>exit(EXIT_FAILURE)\<close>; \<open>ConvergenceExit\<close> carries the value of the loop variable
  \<^verbatim>\<open>run\<close> at the exit. The last two are undefined behaviour of the C++ program, made
  explicit: \<^verbatim>\<open>back()\<close> or \<^verbatim>\<open>pop_back()\<close> on an empty vector, and a read past the
  terminating NUL of \<^verbatim>\<open>private_data\<close>.
\<close>

datatype error =
    DeadCodeExit
  | ConvergenceExit int
  | AffinityExit
  | EmptyVector
  | OutOfBounds

type_synonym 'a result = "(error \<times> state) + ('a \<times> state)"

definition kRecursionDepth :: int where
  "kRecursionDepth = 64"

definition kCacheLineSize :: int where
  "kCacheLineSize = 64"

definition note_event :: "event \<Rightarrow> state \<Rightarrow> state" where
  "note_event e s = s\<lparr>trace := trace s @ [(e, live s, length (stack_mark_pointers s))]\<rparr>"

definition push_back :: "int \<Rightarrow> state \<Rightarrow> state" where
  "push_back p s = note_event (Push p) (s\<lparr>stack_mark_pointers := stack_mark_pointers s @ [p]\<rparr>)"

definition pop_back :: "state \<Rightarrow> (error \<times> state) + state" where
  "pop_back s =
     (if stack_mark_pointers s = [] then Inl (EmptyVector, s)
      else Inr (note_event Pop (s\<lparr>stack_mark_pointers := butlast (stack_mark_pointers s)\<rparr>)))"

definition back_op :: "state \<Rightarrow> int result" where
  "back_op s =
     (if stack_mark_pointers s = [] then Inl (EmptyVector, s)
      else Inr (last (stack_mark_pointers s), note_event (Back (last (stack_mark_pointers s))) s))"

definition sched_yield :: "state \<Rightarrow> state" where
  "sched_yield s = note_event Yield s"

text \<open>
  Modelled from the spec: \<^verbatim>\<open>CLFlush\<close> is declared in \<^verbatim>\<open>instr.h\<close>, which is not among the
  sources. Section 6 calls it \<^verbatim>\<open>flushCacheLine(address)\<close>; flushing removes the line that
  holds the address from the set of cached lines. A line holds \<open>kCacheLineSize\<close> bytes.
\<close>

definition line_of :: "int \<Rightarrow> int" where
  "line_of p = p div kCacheLineSize"

definition CLFlush :: "int \<Rightarrow> state \<Rightarrow> state" where
  "CLFlush p s = note_event (Flush p) (s\<lparr>cache := cache s - {line_of p}\<rparr>)"

text \<open>
  Modelled from the spec: \<^verbatim>\<open>ForceRead\<close> is declared in \<^verbatim>\<open>instr.h\<close>, which is not among
  the sources. Section 4.3: a read that cannot be optimised away and leaves the line it
  touches in the cache.
\<close>

definition ForceRead_op :: "int \<Rightarrow> state \<Rightarrow> state" where
  "ForceRead_op p s = note_event (ForceRead p) (s\<lparr>cache := insert (line_of p) (cache s)\<rparr>)"

subsection \<open>What the programs take from headers that are not among the sources\<close>

text \<open>
  \<open>'c\<close> is the state of a \<^verbatim>\<open>CacheSideChannel\<close> object (\<^verbatim>\<open>cache_sidechannel.h\<close>). Its
  operations see and change the cache. \<open>frame_mark d\<close> is the address the compiler gives
  the local \<^verbatim>\<open>stack_mark\<close> of the activation at depth \<open>d\<close>: depth 0 is \<^verbatim>\<open>LeakByte\<close>,
  depth \<open>d + 1\<close> is the \<^verbatim>\<open>ReturnsTrue\<close> called at depth \<open>d\<close>. \<open>BigByte_size\<close> is
  \<^verbatim>\<open>sizeof(BigByte)\<close>. \<open>private_data\<close> is the string of \<^verbatim>\<open>local_content.h\<close> (used by
  \<open>_sa\<close>; \<open>_ca\<close> defines its own). \<open>FlushFromDataCache\<close> is the function of \<^verbatim>\<open>utils.h\<close>
  (used by \<open>_sa\<close>), as its effect on the cache. \<open>sched_setaffinity\<close> is the value the
  system call returns in \<^verbatim>\<open>main\<close> of \<open>_ca\<close>.
\<close>

record 'c env =
  sidechannel_new :: 'c
  GetOracle :: "'c \<Rightarrow> int"
  FlushOracle :: "'c \<times> int set \<Rightarrow> 'c \<times> int set"
  AddHitAndRecomputeScores :: "'c \<times> int set \<Rightarrow> (bool \<times> char) \<times> 'c \<times> int set"
  frame_mark :: "nat \<Rightarrow> int"
  BigByte_size :: int
  private_data :: string
  FlushFromDataCache :: "int \<Rightarrow> int \<Rightarrow> int set \<Rightarrow> int set"
  sched_setaffinity :: int

definition private_data_ca :: string where
  "private_data_ca = ''It's a s3kr3t!!!''"

section \<open>ReturnsFalse\<close>

text \<open>
  The body of the inner \<^verbatim>\<open>if\<close> of \<^verbatim>\<open>ReturnsFalse\<close>, the same in both programs: the
  forced read of \<^verbatim>\<open>oracle[(unsigned char) private_data[current_offset]]\<close>, the message and
  \<^verbatim>\<open>exit(EXIT_FAILURE)\<close>. It never returns. \<open>pd\<close> is \<^verbatim>\<open>private_data\<close>.
\<close>

definition dead_code :: "int \<Rightarrow> string \<Rightarrow> state \<Rightarrow> error \<times> state" where
  "dead_code bb pd s =
     (if current_offset s > length pd then (OutOfBounds, s)
      else
        let b = (if current_offset s < length pd then of_char (pd ! current_offset s) else (0::nat));
            s1 = ForceRead_op (oracle_ptr s + int b * bb) s
        in (DeadCodeExit, s1\<lparr>cout := cout s1 @ ''Dead code. Must not be printed.'' @ [CHR 0x0A]\<rparr>))"

function ReturnsFalse_sa :: "'c env \<Rightarrow> int \<Rightarrow> state \<Rightarrow> bool result" where
  "ReturnsFalse_sa E counter s =
     (if counter > 0 then
        (case ReturnsFalse_sa E (counter - 1) s of
           Inl e \<Rightarrow> Inl e
         | Inr (r, s1) \<Rightarrow>
             if r then Inl (dead_code (BigByte_size E) (private_data E) s1)
             else Inr (false_value s1, s1))
      else Inr (false_value s, s))"
  by pat_completeness auto
termination
  by (relation "measure (\<lambda>(E, counter, s). nat counter)") auto

function ReturnsFalse_ca :: "'c env \<Rightarrow> int \<Rightarrow> state \<Rightarrow> bool result" where
  "ReturnsFalse_ca E counter s =
     (if counter > 0 then
        (case ReturnsFalse_ca E (counter - 1) s of
           Inl e \<Rightarrow> Inl e
         | Inr (r, s1) \<Rightarrow>
             if r then Inl (dead_code (BigByte_size E) private_data_ca s1)
             else Inr (false_value s1, s1))
      else (let s1 = sched_yield s in Inr (false_value s1, s1)))"
  by pat_completeness auto
termination
  by (relation "measure (\<lambda>(E, counter, s). nat counter)") auto

section \<open>ReturnsTrue\<close>

subsection \<open>The single-process program\<close>

text \<open>
  The statements of \<^verbatim>\<open>ReturnsTrue\<close> after the \<^verbatim>\<open>if\<close>: \<^verbatim>\<open>pop_back()\<close>, the call
  \<^verbatim>\<open>FlushFromDataCache(&stack_mark, stack_mark_pointers.back())\<close> and \<^verbatim>\<open>return true\<close>.
  \<open>own\<close> is \<^verbatim>\<open>&stack_mark\<close>.
\<close>

definition unwind_sa :: "'c env \<Rightarrow> int \<Rightarrow> state \<Rightarrow> bool result" where
  "unwind_sa E own s =
     (case pop_back s of
        Inl e \<Rightarrow> Inl e
      | Inr s1 \<Rightarrow>
          (case back_op s1 of
             Inl e \<Rightarrow> Inl e
           | Inr (parent, s2) \<Rightarrow>
               let s3 = note_event (FlushRange own parent)
                          (s2\<lparr>cache := FlushFromDataCache E own parent (cache s2)\<rparr>)
               in Inr (True, s3\<lparr>live := live s3 - 1\<rparr>)))"

function ReturnsTrue_sa :: "'c env \<Rightarrow> int \<Rightarrow> state \<Rightarrow> bool result" where
  "ReturnsTrue_sa E counter s =
     (let s0 = note_event (Call counter) (s\<lparr>live := live s + 1\<rparr>);
          own = frame_mark E (live s0);
          s1 = push_back own s0
      in if counter > 0 then
           (case ReturnsTrue_sa E (counter - 1) s1 of
              Inl e \<Rightarrow> Inl e
            | Inr (r, s2) \<Rightarrow> unwind_sa E own s2)
         else
           (case ReturnsFalse_sa E kRecursionDepth s1 of
              Inl e \<Rightarrow> Inl e
            | Inr (r, s2) \<Rightarrow> unwind_sa E own s2))"
  by pat_completeness auto
termination
  by (relation "measure (\<lambda>(E, counter, s). nat counter)") auto

subsection \<open>The two-process program\<close>

text \<open>
  The loop variable \<^verbatim>\<open>i\<close> is a 32-bit \<^verbatim>\<open>int\<close>; \<^verbatim>\<open>i += kCacheLineSize\<close> adds in
  \<^verbatim>\<open>size_t\<close> and converts the sum back to \<^verbatim>\<open>int\<close>, which keeps the low 32 bits.
\<close>

definition to_int32 :: "int \<Rightarrow> int" where
  "to_int32 x = (x + 2 ^ 31) mod 2 ^ 32 - 2 ^ 31"

text \<open>
  The \<^verbatim>\<open>for\<close> loop of \<^verbatim>\<open>ReturnsTrue\<close>, entered with the value of \<^verbatim>\<open>i\<close>. The test calls
  \<^verbatim>\<open>stack_mark_pointers.back()\<close> every time; \<^verbatim>\<open>i\<close> is compared with the pointer
  difference as a 64-bit integer. The stride is the parameter \<open>ls\<close>: the program always
  passes \<open>kCacheLineSize\<close>. The loop does not return when the result is \<open>None\<close>.
\<close>

partial_function (option) flush_loop_ca ::
  "int \<Rightarrow> int \<Rightarrow> int \<Rightarrow> state \<Rightarrow> ((error \<times> state) + state) option" where
  "flush_loop_ca ls i own s =
     (case back_op s of
        Inl e \<Rightarrow> Some (Inl e)
      | Inr (parent, s1) \<Rightarrow>
          if i < parent - own
          then flush_loop_ca ls (to_int32 (i + ls)) own (CLFlush (own + i) s1)
          else Some (Inr s1))"

declare flush_loop_ca.simps [code]

text \<open>The loop from \<^verbatim>\<open>i = 0\<close>, then \<^verbatim>\<open>CLFlush(stack_mark_pointers.back())\<close>.\<close>

definition evict_ca :: "int \<Rightarrow> int \<Rightarrow> state \<Rightarrow> ((error \<times> state) + state) option" where
  "evict_ca ls own s =
     (case flush_loop_ca ls 0 own s of
        None \<Rightarrow> None
      | Some (Inl e) \<Rightarrow> Some (Inl e)
      | Some (Inr s1) \<Rightarrow>
          (case back_op s1 of
             Inl e \<Rightarrow> Some (Inl e)
           | Inr (parent, s2) \<Rightarrow> Some (Inr (CLFlush parent s2))))"

text \<open>The statements of \<^verbatim>\<open>ReturnsTrue\<close> after the \<^verbatim>\<open>if\<close>.\<close>

definition unwind_ca :: "int \<Rightarrow> state \<Rightarrow> bool result option" where
  "unwind_ca own s =
     (case pop_back s of
        Inl e \<Rightarrow> Some (Inl e)
      | Inr s1 \<Rightarrow>
          (case evict_ca kCacheLineSize own s1 of
             None \<Rightarrow> None
           | Some (Inl e) \<Rightarrow> Some (Inl e)
           | Some (Inr s2) \<Rightarrow> Some (Inr (True, s2\<lparr>live := live s2 - 1\<rparr>))))"

function ReturnsTrue_ca :: "'c env \<Rightarrow> int \<Rightarrow> state \<Rightarrow> bool result option" where
  "ReturnsTrue_ca E counter s =
     (let s0 = note_event (Call counter) (s\<lparr>live := live s + 1\<rparr>);
          own = frame_mark E (live s0);
          s1 = push_back own s0
      in if counter > 0 then
           (case ReturnsTrue_ca E (counter - 1) s1 of
              None \<Rightarrow> None
            | Some (Inl e) \<Rightarrow> Some (Inl e)
            | Some (Inr (r, s2)) \<Rightarrow> unwind_ca own s2)
         else unwind_ca own (sched_yield s1))"
  by pat_completeness auto
termination
  by (relation "measure (\<lambda>(E, counter, s). nat counter)") auto

section \<open>LeakByte\<close>

text \<open>
  One iteration of the loop of \<^verbatim>\<open>LeakByte\<close> up to the call of
  \<^verbatim>\<open>AddHitAndRecomputeScores\<close>: the oracle is flushed, the mark of \<^verbatim>\<open>LeakByte\<close> is
  pushed, \<^verbatim>\<open>ReturnsTrue(kRecursionDepth)\<close> runs, the mark is popped. \<open>sc\<close> is the local
  \<^verbatim>\<open>sidechannel\<close>.
\<close>

definition LeakByte_trial_sa :: "'c env \<Rightarrow> 'c \<Rightarrow> state \<Rightarrow> 'c result" where
  "LeakByte_trial_sa E sc s =
     (let (sc1, c1) = FlushOracle E (sc, cache s);
          s1 = note_event OracleFlushed (s\<lparr>cache := c1\<rparr>);
          s2 = push_back (frame_mark E (live s1)) s1
      in case ReturnsTrue_sa E kRecursionDepth s2 of
           Inl e \<Rightarrow> Inl e
         | Inr (r, s3) \<Rightarrow>
             (case pop_back s3 of
                Inl e \<Rightarrow> Inl e
              | Inr s4 \<Rightarrow> Inr (sc1, s4)))"

definition LeakByte_trial_ca :: "'c env \<Rightarrow> 'c \<Rightarrow> state \<Rightarrow> 'c result option" where
  "LeakByte_trial_ca E sc s =
     (let (sc1, c1) = FlushOracle E (sc, cache s);
          s1 = note_event OracleFlushed (s\<lparr>cache := c1\<rparr>);
          s2 = push_back (frame_mark E (live s1)) s1
      in case ReturnsTrue_ca E kRecursionDepth s2 of
           None \<Rightarrow> None
         | Some (Inl e) \<Rightarrow> Some (Inl e)
         | Some (Inr (r, s3)) \<Rightarrow>
             (case pop_back s3 of
                Inl e \<Rightarrow> Some (Inl e)
              | Inr s4 \<Rightarrow> Some (Inr (sc1, s4))))"

text \<open>
  The rest of the iteration, the same in both programs: the decision, the
  \<^verbatim>\<open>return\<close>, the test \<^verbatim>\<open>run > 100000\<close> with the message on \<^verbatim>\<open>std::cerr\<close> and the exit.
  \<open>Inr (Inl (sc', s'))\<close> goes on to the next iteration, \<open>Inr (Inr (c, s'))\<close> returns \<open>c\<close>.
\<close>

definition decide :: "'c env \<Rightarrow> int \<Rightarrow> 'c \<Rightarrow> state \<Rightarrow> (error \<times> state) + (('c \<times> state) + (char \<times> state))" where
  "decide E run sc s =
     (let (result, sc1, c1) = AddHitAndRecomputeScores E (sc, cache s);
          s1 = note_event (HitAdded (fst result) (snd result)) (s\<lparr>cache := c1\<rparr>)
      in if fst result then Inr (Inr (snd result, s1))
         else if run > 100000 then
           Inl (ConvergenceExit run,
                s1\<lparr>cerr := cerr s1 @ ''Does not converge '' @ [snd result] @ [CHR 0x0A]\<rparr>)
         else Inr (Inl (sc1, s1)))"

function LeakByte_loop_sa :: "'c env \<Rightarrow> int \<Rightarrow> 'c \<Rightarrow> state \<Rightarrow> char result" where
  "LeakByte_loop_sa E run sc s =
     (case LeakByte_trial_sa E sc s of
        Inl e \<Rightarrow> Inl e
      | Inr (sc1, s1) \<Rightarrow>
          (case decide E run sc1 s1 of
             Inl e \<Rightarrow> Inl e
           | Inr (Inr r) \<Rightarrow> Inr r
           | Inr (Inl (sc2, s2)) \<Rightarrow> LeakByte_loop_sa E (run + 1) sc2 s2))"
  by pat_completeness auto
termination
  by (relation "measure (\<lambda>(E, run, sc, s). nat (100001 - run))")
     (auto simp: decide_def Let_def split: prod.splits if_splits)

function LeakByte_loop_ca :: "'c env \<Rightarrow> int \<Rightarrow> 'c \<Rightarrow> state \<Rightarrow> char result option" where
  "LeakByte_loop_ca E run sc s =
     (case LeakByte_trial_ca E sc s of
        None \<Rightarrow> None
      | Some (Inl e) \<Rightarrow> Some (Inl e)
      | Some (Inr (sc1, s1)) \<Rightarrow>
          (case decide E run sc1 s1 of
             Inl e \<Rightarrow> Some (Inl e)
           | Inr (Inr r) \<Rightarrow> Some (Inr r)
           | Inr (Inl (sc2, s2)) \<Rightarrow> LeakByte_loop_ca E (run + 1) sc2 s2))"
  by pat_completeness auto
termination
  by (relation "measure (\<lambda>(E, run, sc, s). nat (100001 - run))")
     (auto simp: decide_def Let_def split: prod.splits if_splits)

definition LeakByte_sa :: "'c env \<Rightarrow> state \<Rightarrow> char result" where
  "LeakByte_sa E s =
     (let sc = sidechannel_new E
      in LeakByte_loop_sa E 0 sc (s\<lparr>oracle_ptr := GetOracle E sc\<rparr>))"

definition LeakByte_ca :: "'c env \<Rightarrow> state \<Rightarrow> char result option" where
  "LeakByte_ca E s =
     (let sc = sidechannel_new E
      in LeakByte_loop_ca E 0 sc (s\<lparr>oracle_ptr := GetOracle E sc\<rparr>))"

section \<open>main\<close>

text \<open>The loop over the offsets \<^verbatim>\<open>i < strlen(private_data)\<close>, entered with the value of \<^verbatim>\<open>i\<close>.\<close>

function main_loop_sa :: "'c env \<Rightarrow> nat \<Rightarrow> state \<Rightarrow> unit result" where
  "main_loop_sa E i s =
     (if i < length (private_data E) then
        (case LeakByte_sa E (s\<lparr>current_offset := i\<rparr>) of
           Inl e \<Rightarrow> Inl e
         | Inr (c, s1) \<Rightarrow> main_loop_sa E (i + 1) (s1\<lparr>cout := cout s1 @ [c]\<rparr>))
      else Inr ((), s))"
  by pat_completeness auto
termination
  by (relation "measure (\<lambda>(E, i, s). length (private_data E) - i)") auto

definition main_sa :: "'c env \<Rightarrow> state \<Rightarrow> int result" where
  "main_sa E s =
     (case main_loop_sa E 0 (s\<lparr>cout := cout s @ ''Leaking the string: ''\<rparr>) of
        Inl e \<Rightarrow> Inl e
      | Inr (u, s1) \<Rightarrow> Inr (0, s1\<lparr>cout := cout s1 @ [CHR 0x0A] @ ''Done!'' @ [CHR 0x0A]\<rparr>))"

function main_loop_ca :: "'c env \<Rightarrow> nat \<Rightarrow> state \<Rightarrow> unit result option" where
  "main_loop_ca E i s =
     (if i < length private_data_ca then
        (case LeakByte_ca E (s\<lparr>current_offset := i\<rparr>) of
           None \<Rightarrow> None
         | Some (Inl e) \<Rightarrow> Some (Inl e)
         | Some (Inr (c, s1)) \<Rightarrow> main_loop_ca E (i + 1) (s1\<lparr>cout := cout s1 @ [c]\<rparr>))
      else Some (Inr ((), s)))"
  by pat_completeness auto
termination
  by (relation "measure (\<lambda>(E, i, s). length private_data_ca - i)") auto

text \<open>
  \<^verbatim>\<open>main\<close> of the two-process program in the parent, where \<^verbatim>\<open>fork()\<close> is not 0. The
  child, which calls \<^verbatim>\<open>ReturnsFalse(kRecursionDepth)\<close> until its parent is gone, is another
  process with its own copy of the state and is not part of this run.
\<close>

definition main_ca :: "'c env \<Rightarrow> state \<Rightarrow> int result option" where
  "main_ca E s =
     (if sched_setaffinity E \<noteq> 0 then
        Some (Inl (AffinityExit, s\<lparr>cout := cout s @ ''CPU affinity setup failed.'' @ [CHR 0x0A]\<rparr>))
      else
        (case main_loop_ca E 0 (s\<lparr>cout := cout s @ ''Leaking the string: ''\<rparr>) of
           None \<Rightarrow> None
         | Some (Inl e) \<Rightarrow> Some (Inl e)
         | Some (Inr (u, s1)) \<Rightarrow>
             Some (Inr (0, s1\<lparr>cout := cout s1 @ [CHR 0x0A] @ ''Done!'' @ [CHR 0x0A]\<rparr>))))"

section \<open>Observations on runs\<close>

text \<open>The state in which a run stops, by a return or by an exit.\<close>

definition final_state :: "'a result \<Rightarrow> state" where
  "final_state r = (case r of Inl (e, s) \<Rightarrow> s | Inr (x, s) \<Rightarrow> s)"

text \<open>How many operations of a kind the trace holds.\<close>

definition count_events :: "(event \<Rightarrow> bool) \<Rightarrow> state \<Rightarrow> nat" where
  "count_events P s = length (filter (\<lambda>(e, d, n). P e) (trace s))"

fun is_tracker_op :: "event \<Rightarrow> bool" where
  "is_tracker_op (Push p) = True"
| "is_tracker_op Pop = True"
| "is_tracker_op e = False"

fun is_ForceRead :: "event \<Rightarrow> bool" where
  "is_ForceRead (ForceRead p) = True"
| "is_ForceRead e = False"

text \<open>The vector of stack marks and the three other globals are the same in both states.\<close>

definition same_globals :: "state \<Rightarrow> state \<Rightarrow> bool" where
  "same_globals s s' =
     (stack_mark_pointers s' = stack_mark_pointers s \<and> current_offset s' = current_offset s \<and>
      oracle_ptr s' = oracle_ptr s \<and> false_value s' = false_value s)"

text \<open>
  The events a call of \<^verbatim>\<open>ReturnsTrue\<close> can make: everything but the forced read of the
  dead code and the two operations of the side channel.
\<close>

fun frame_event :: "event \<Rightarrow> bool" where
  "frame_event (ForceRead p) = False"
| "frame_event OracleFlushed = False"
| "frame_event (HitAdded b g) = False"
| "frame_event e = True"

text \<open>
  What holds of the number \<open>d\<close> of live activations of \<^verbatim>\<open>ReturnsTrue\<close> and the length
  \<open>n\<close> of \<^verbatim>\<open>stack_mark_pointers\<close> right after an operation, in a run started by
  \<^verbatim>\<open>LeakByte\<close>. After a push and at the yield the vector holds the mark of \<^verbatim>\<open>LeakByte\<close>
  and one mark for each live activation. At the entry of an activation, and from its
  \<^verbatim>\<open>pop_back\<close> on (the calls of \<^verbatim>\<open>back\<close> and the flushes), the activation is live and
  its own mark is not in the vector. The side channel works on an empty vector.
\<close>

fun point_ok :: "event \<times> nat \<times> nat \<Rightarrow> bool" where
  "point_ok (Call c, d, n) = (n = d \<and> 0 < n)"
| "point_ok (Push p, d, n) = (n = d + 1)"
| "point_ok (Yield, d, n) = (n = d + 1)"
| "point_ok (Pop, d, n) = (n = d)"
| "point_ok (Back p, d, n) = (n = d \<and> 0 < n)"
| "point_ok (Flush p, d, n) = (n = d \<and> 0 < n)"
| "point_ok (FlushRange b e, d, n) = (n = d \<and> 0 < n)"
| "point_ok (ForceRead p, d, n) = False"
| "point_ok (OracleFlushed, d, n) = (n = 0 \<and> d = 0)"
| "point_ok (HitAdded b g, d, n) = (n = 0 \<and> d = 0)"

text \<open>How many entries of \<^verbatim>\<open>ReturnsTrue(c)\<close> a list of events holds.\<close>

definition calls_of :: "int \<Rightarrow> (event \<times> nat \<times> nat) list \<Rightarrow> nat" where
  "calls_of c evs = length (filter (\<lambda>p. fst p = Call c) evs)"

text \<open>The addresses given to \<^verbatim>\<open>CLFlush\<close>, in the order of the calls.\<close>

fun flushes :: "(event \<times> nat \<times> nat) list \<Rightarrow> int list" where
  "flushes [] = []"
| "flushes ((Flush p, d, n) # tr) = p # flushes tr"
| "flushes (x # tr) = flushes tr"

definition flushed :: "state \<Rightarrow> int list" where
  "flushed s = flushes (trace s)"

fun is_evict_event :: "event \<Rightarrow> bool" where
  "is_evict_event (Back p) = True"
| "is_evict_event (Flush p) = True"
| "is_evict_event e = False"

definition evict_points :: "state \<Rightarrow> (event \<times> nat \<times> nat) list \<Rightarrow> bool" where
  "evict_points s evs =
     list_all (\<lambda>(e, d, n). is_evict_event e \<and> d = live s \<and> n = length (stack_mark_pointers s)) evs"

text \<open>The eviction of \<^verbatim>\<open>ReturnsTrue\<close> done twice in a row, and the cache a run ends with.\<close>

definition evict_twice_ca :: "int \<Rightarrow> int \<Rightarrow> state \<Rightarrow> ((error \<times> state) + state) option" where
  "evict_twice_ca ls own s =
     (case evict_ca ls own s of
        None \<Rightarrow> None
      | Some (Inl e) \<Rightarrow> Some (Inl e)
      | Some (Inr s1) \<Rightarrow> evict_ca ls own s1)"

definition cache_after :: "((error \<times> state) + state) option \<Rightarrow> int set option" where
  "cache_after r =
     (case r of None \<Rightarrow> None | Some (Inl (e, s)) \<Rightarrow> Some (cache s) | Some (Inr s) \<Rightarrow> Some (cache s))"

text \<open>
  The marks of a caller and its callee are close enough for the 32-bit loop variable of
  the eviction: on a real stack they are a frame apart.
\<close>

definition frames_near :: "'c env \<Rightarrow> bool" where
  "frames_near E = (\<forall>d. frame_mark E d - frame_mark E (Suc d) \<le> 2 ^ 31 - kCacheLineSize)"

text \<open>How many decisions of the side channel a list of events holds.\<close>

fun is_HitAdded :: "event \<Rightarrow> bool" where
  "is_HitAdded (HitAdded b g) = True"
| "is_HitAdded e = False"

definition hits :: "(event \<times> nat \<times> nat) list \<Rightarrow> nat" where
  "hits evs = length (filter (\<lambda>p. is_HitAdded (fst p)) evs)"

definition oracle_flushes :: "(event \<times> nat \<times> nat) list \<Rightarrow> nat" where
  "oracle_flushes evs = length (filter (\<lambda>p. fst p = OracleFlushed) evs)"

text \<open>
  What the loop of \<^verbatim>\<open>LeakByte\<close>, entered in state \<open>s\<close> with the value \<open>run\<close> of its
  variable, ends with: only the cache, \<^verbatim>\<open>std::cerr\<close> and the trace have changed; the new
  points are as \<open>point_ok\<close> says when the loop starts outside any run; the dead code
  made no read; the loop returns after at least one decision, or it exits with
  \<^verbatim>\<open>run\<close> at 100001 after \<open>100002 - run\<close> decisions, the last event being an
  undecided answer whose guess is in the message on \<^verbatim>\<open>std::cerr\<close>; it exits when the
  side channel never decides.
\<close>

definition loop_post :: "'c env \<Rightarrow> int \<Rightarrow> state \<Rightarrow> char result \<Rightarrow> bool" where
  "loop_post E run s r =
     (\<exists>evs. final_state r = s\<lparr>cache := cache (final_state r), cerr := cerr (final_state r),
                                  trace := trace s @ evs\<rparr> \<and>
        (stack_mark_pointers s = [] \<and> live s = 0 \<longrightarrow> list_all point_ok evs) \<and>
        list_all (\<lambda>p. \<not> is_ForceRead (fst p)) evs \<and>
        (case r of
           Inr (c, s') \<Rightarrow> cerr s' = cerr s \<and> 0 < hits evs
         | Inl (e, s') \<Rightarrow> e = ConvergenceExit 100001 \<and> hits evs = nat (100002 - run) \<and>
             (\<exists>evs' g d n x. evs = evs' @ [(HitAdded False g, d, n)] \<and>
                 g = snd (fst (AddHitAndRecomputeScores E x)) \<and>
                 cerr s' = cerr s @ ''Does not converge '' @ [g, CHR 0x0A])) \<and>
        ((\<forall>x. \<not> fst (fst (AddHitAndRecomputeScores E x))) \<longrightarrow> isl r))"

text \<open>The trials made so far: the calls of \<^verbatim>\<open>AddHitAndRecomputeScores\<close>.\<close>

definition trials :: "state \<Rightarrow> nat" where
  "trials s = count_events is_HitAdded s"

text \<open>
  Between \<open>s\<close> and \<open>s'\<close> there has been exactly one flush of the oracle, one call
  \<^verbatim>\<open>ReturnsTrue(kRecursionDepth)\<close> and one decision.
\<close>

definition one_trial :: "state \<Rightarrow> state \<Rightarrow> bool" where
  "one_trial s s' =
     (count_events (\<lambda>e. e = OracleFlushed) s' = count_events (\<lambda>e. e = OracleFlushed) s + 1 \<and>
      count_events (\<lambda>e. e = Call kRecursionDepth) s' =
        count_events (\<lambda>e. e = Call kRecursionDepth) s + 1 \<and>
      trials s' = trials s + 1)"

text \<open>
  What the first call of \<^verbatim>\<open>AddHitAndRecomputeScores\<close> in \<^verbatim>\<open>LeakByte\<close> works on: the
  side channel and the cache after the first pollution run.
\<close>

definition first_query_sa :: "'c env \<Rightarrow> state \<Rightarrow> ('c \<times> int set) option" where
  "first_query_sa E s =
     (case LeakByte_trial_sa E (sidechannel_new E)
             (s\<lparr>oracle_ptr := GetOracle E (sidechannel_new E)\<rparr>) of
        Inl e \<Rightarrow> None
      | Inr (sc, s1) \<Rightarrow> Some (sc, cache s1))"

definition first_query_ca :: "'c env \<Rightarrow> state \<Rightarrow> ('c \<times> int set) option" where
  "first_query_ca E s =
     (case LeakByte_trial_ca E (sidechannel_new E)
             (s\<lparr>oracle_ptr := GetOracle E (sidechannel_new E)\<rparr>) of
        None \<Rightarrow> None
      | Some (Inl e) \<Rightarrow> None
      | Some (Inr (sc, s1)) \<Rightarrow> Some (sc, cache s1))"

text \<open>
  The invariant as the specification words it: the vector holds the mark of
  \<^verbatim>\<open>LeakByte\<close> and one mark for each live activation of \<^verbatim>\<open>ReturnsTrue\<close>.
\<close>

fun claimed_point :: "event \<times> nat \<times> nat \<Rightarrow> bool" where
  "claimed_point (e, d, n) = (n = d + 1)"

text \<open>The last answer of \<^verbatim>\<open>AddHitAndRecomputeScores\<close> so far, if there has been one.\<close>

fun last_answer :: "(event \<times> nat \<times> nat) list \<Rightarrow> (bool \<times> char) option" where
  "last_answer [] = None"
| "last_answer ((HitAdded b g, d, n) # tr) =
     (case last_answer tr of None \<Rightarrow> Some (b, g) | Some r \<Rightarrow> Some r)"
| "last_answer (x # tr) = last_answer tr"

definition last_decision :: "state \<Rightarrow> (bool \<times> char) option" where
  "last_decision s = last_answer (trace s)"

text \<open>The pairs of pointers given to \<^verbatim>\<open>FlushFromDataCache\<close>, in the order of the calls.\<close>

fun ranges :: "(event \<times> nat \<times> nat) list \<Rightarrow> (int \<times> int) list" where
  "ranges [] = []"
| "ranges ((FlushRange b e, d, n) # tr) = (b, e) # ranges tr"
| "ranges (x # tr) = ranges tr"

definition flushed_ranges :: "state \<Rightarrow> (int \<times> int) list" where
  "flushed_ranges s = ranges (trace s)"

text \<open>
  How a run that was in state \<open>s\<close> when it came to offset \<open>i\<close> ends in \<open>s'\<close> on the
  convergence failure: the message with the guess \<open>g\<close> is on \<^verbatim>\<open>std::cerr\<close>, nothing has
  been written to \<^verbatim>\<open>std::cout\<close>, and \<^verbatim>\<open>current_offset\<close> is still \<open>i\<close>.
\<close>

definition aborted_at :: "nat \<Rightarrow> char \<Rightarrow> state \<Rightarrow> state \<Rightarrow> bool" where
  "aborted_at i g s s' =
     (cerr s' = cerr s @ ''Does not converge '' @ [g, CHR 0x0A] \<and> cout s' = cout s \<and>
      current_offset s' = i)"

subsection \<open>A concrete environment and the initial state of the programs\<close>

text \<open>
  The side channel of \<open>env_ex decided\<close> counts its queries and always answers
  \<open>(decided, CHR ''x'')\<close>; frames are 48 bytes apart; the secret is \<open>''AB''\<close>.
\<close>

definition env_ex :: "bool \<Rightarrow> nat env" where
  "env_ex decided =
     \<lparr>sidechannel_new = 0,
      GetOracle = (\<lambda>c. 4096),
      FlushOracle = (\<lambda>(c, lines). (c, lines)),
      AddHitAndRecomputeScores = (\<lambda>(c, lines). ((decided, CHR ''x''), (c + 1, lines))),
      frame_mark = (\<lambda>d. 1000000 - 48 * int d),
      BigByte_size = 4096,
      private_data = ''AB'',
      FlushFromDataCache = (\<lambda>b e lines. lines - line_of ` {b..<e}),
      sched_setaffinity = 0\<rparr>"

text \<open>
  A side channel that never decides and whose guess changes with every query: the
  \<open>c\<close>-th query, counted from 0, guesses the character with code \<open>c mod 256\<close>.
\<close>

definition env_count :: "nat env" where
  "env_count =
     (env_ex False)\<lparr>AddHitAndRecomputeScores :=
        (\<lambda>(c, lines). ((False, char_of c), (c + 1, lines)))\<rparr>"

definition state_ex :: state where
  "state_ex =
     \<lparr>stack_mark_pointers = [], current_offset = 0, oracle_ptr = 0, false_value = False,
      cache = {}, cout = [], cerr = [], live = 0, trace = []\<rparr>"

text \<open>The initial state after \<^verbatim>\<open>LeakByte\<close> has pushed its mark.\<close>

definition sentinel_ex :: state where
  "sentinel_ex = push_back 1000000 state_ex"

text \<open>A state for the eviction: the caller's mark is at 130, lines 0, 1, 2, 3 and 5 are cached.\<close>

definition evict_ex :: state where
  "evict_ex = state_ex\<lparr>stack_mark_pointers := [130], cache := {0, 1, 2, 3, 5}\<rparr>"

section \<open>Properties of ReturnsFalse\<close>

declare ReturnsFalse_sa.simps [simp del] ReturnsFalse_ca.simps [simp del]
declare ReturnsTrue_sa.simps [simp del] ReturnsTrue_ca.simps [simp del]
declare LeakByte_loop_sa.simps [simp del] LeakByte_loop_ca.simps [simp del]
declare main_loop_sa.simps [simp del] main_loop_ca.simps [simp del]

lemma note_event_fields [simp]:
  "stack_mark_pointers (note_event e s) = stack_mark_pointers s"
  "current_offset (note_event e s) = current_offset s"
  "oracle_ptr (note_event e s) = oracle_ptr s"
  "false_value (note_event e s) = false_value s"
  "cache (note_event e s) = cache s"
  "cout (note_event e s) = cout s"
  "cerr (note_event e s) = cerr s"
  "live (note_event e s) = live s"
  "trace (note_event e s) = trace s @ [(e, live s, length (stack_mark_pointers s))]"
  by (simp_all add: note_event_def)

lemma count_events_note_event [simp]:
  "count_events P (note_event e s) = count_events P s + (if P e then 1 else 0)"
  by (simp add: count_events_def)

lemma count_events_update [simp]:
  "count_events P (s\<lparr>stack_mark_pointers := a\<rparr>) = count_events P s"
  "count_events P (s\<lparr>current_offset := b\<rparr>) = count_events P s"
  "count_events P (s\<lparr>oracle_ptr := c\<rparr>) = count_events P s"
  "count_events P (s\<lparr>cache := d\<rparr>) = count_events P s"
  "count_events P (s\<lparr>cout := f\<rparr>) = count_events P s"
  "count_events P (s\<lparr>cerr := g\<rparr>) = count_events P s"
  "count_events P (s\<lparr>live := h\<rparr>) = count_events P s"
  by (simp_all add: count_events_def)

text \<open>
  What \<^verbatim>\<open>ReturnsFalse\<close> computes, in closed form: the state is passed down and up
  unchanged, so the inner \<^verbatim>\<open>if\<close> is entered exactly when \<^verbatim>\<open>false_value\<close> holds and
  there is a recursive call.
\<close>

lemma ReturnsFalse_sa_eq:
  "ReturnsFalse_sa E counter s =
     (if counter > 0 \<and> false_value s
      then Inl (dead_code (BigByte_size E) (private_data E) s)
      else Inr (false_value s, s))"
proof (induction E counter s rule: ReturnsFalse_sa.induct)
  case (1 E counter s)
  show ?case
  proof (cases "counter > 0")
    case True
    with 1 show ?thesis by (subst ReturnsFalse_sa.simps) simp
  next
    case False
    then show ?thesis by (subst ReturnsFalse_sa.simps) simp
  qed
qed

lemma ReturnsFalse_ca_eq:
  "ReturnsFalse_ca E counter s =
     (if counter > 0 \<and> false_value s
      then Inl (dead_code (BigByte_size E) private_data_ca (sched_yield s))
      else Inr (false_value s, sched_yield s))"
proof (induction E counter s rule: ReturnsFalse_ca.induct)
  case (1 E counter s)
  show ?case
  proof (cases "counter > 0")
    case True
    with 1 show ?thesis by (subst ReturnsFalse_ca.simps) (simp add: sched_yield_def)
  next
    case False
    then show ?thesis by (subst ReturnsFalse_ca.simps) (simp add: sched_yield_def)
  qed
qed

text \<open>
  C5. For every depth, \<^verbatim>\<open>ReturnsFalse(depth)\<close> terminates and returns false, in both
  programs, from every state in which the global \<^verbatim>\<open>false_value\<close> holds the value it is
  initialised with. (No statement of either program assigns to \<^verbatim>\<open>false_value\<close>.)
\<close>

theorem ReturnsFalse_returns_false:
  assumes "false_value s = False"
  shows "(\<exists>s'. ReturnsFalse_sa E counter s = Inr (False, s')) \<and>
         (\<exists>s'. ReturnsFalse_ca E counter s = Inr (False, s'))"
  using assms by (simp add: ReturnsFalse_sa_eq ReturnsFalse_ca_eq)

theorem ReturnsFalse_returns_false_witness:
  "false_value state_ex = False \<and>
   (\<exists>s'. ReturnsFalse_sa (env_ex False) 64 state_ex = Inr (False, s')) \<and>
   (\<exists>s'. ReturnsFalse_ca (env_ex False) 64 state_ex = Inr (False, s'))"
  using ReturnsFalse_returns_false [of state_ex "env_ex False" 64]
  by (simp add: state_ex_def)

text \<open>
  C10. Whatever the depth and the state, \<^verbatim>\<open>ReturnsFalse\<close> leaves the vector of stack
  marks, \<^verbatim>\<open>current_offset\<close>, \<^verbatim>\<open>oracle_ptr\<close> and \<^verbatim>\<open>false_value\<close> as they were, and makes
  no \<^verbatim>\<open>push_back\<close> and no \<^verbatim>\<open>pop_back\<close>. This holds for the state in which the call
  stops, whether it returns or not.
\<close>

theorem ReturnsFalse_frame:
  "same_globals s (final_state (ReturnsFalse_sa E counter s)) \<and>
   count_events is_tracker_op (final_state (ReturnsFalse_sa E counter s)) =
     count_events is_tracker_op s \<and>
   same_globals s (final_state (ReturnsFalse_ca E counter s)) \<and>
   count_events is_tracker_op (final_state (ReturnsFalse_ca E counter s)) =
     count_events is_tracker_op s"
  by (simp add: ReturnsFalse_sa_eq ReturnsFalse_ca_eq final_state_def dead_code_def
      same_globals_def ForceRead_op_def Let_def sched_yield_def)

section \<open>The eviction loop of the two-process program\<close>

lemma flushes_append [simp]: "flushes (xs @ ys) = flushes xs @ flushes ys"
  by (induction xs rule: flushes.induct) simp_all

lemma to_int32_id: "- (2 ^ 31) \<le> x \<Longrightarrow> x < 2 ^ 31 \<Longrightarrow> to_int32 x = x"
  by (simp add: to_int32_def)

lemma flush_loop_ca_ok:
  assumes "stack_mark_pointers s \<noteq> []" "0 < ls"
    and "last (stack_mark_pointers s) - own + ls \<le> 2 ^ 31" "0 \<le> i"
  shows "\<exists>evs n. flush_loop_ca ls i own s =
            Some (Inr (s\<lparr>cache := cache s - line_of ` set (flushes evs), trace := trace s @ evs\<rparr>)) \<and>
          evict_points s evs \<and>
          flushes evs = map (\<lambda>k. own + i + int k * ls) [0..<n] \<and>
          (\<forall>k. k < n \<longleftrightarrow> own + i + int k * ls < last (stack_mark_pointers s))"
  using assms
proof (induction "nat (last (stack_mark_pointers s) - own - i)" arbitrary: i s rule: less_induct)
  case less
  define parent where "parent = last (stack_mark_pointers s)"
  define s1 where "s1 = note_event (Back parent) s"
  have b: "back_op s = Inr (parent, s1)"
    using less.prems(1) by (simp add: back_op_def parent_def s1_def)
  show ?case
  proof (cases "i < parent - own")
    case False
    have "flush_loop_ca ls i own s = Some (Inr s1)"
      using b False by (subst flush_loop_ca.simps) simp
    moreover have "s1 = s\<lparr>cache := cache s - line_of ` set (flushes [(Back parent, live s, length (stack_mark_pointers s))]),
                         trace := trace s @ [(Back parent, live s, length (stack_mark_pointers s))]\<rparr>"
      by (simp add: s1_def note_event_def)
    moreover have "evict_points s [(Back parent, live s, length (stack_mark_pointers s))]"
      by (simp add: evict_points_def)
    moreover have "\<forall>k. k < (0::nat) \<longleftrightarrow> own + i + int k * ls < last (stack_mark_pointers s)"
    proof
      fix k :: nat
      have "0 \<le> int k * ls" using less.prems(2) by simp
      with False show "k < (0::nat) \<longleftrightarrow> own + i + int k * ls < last (stack_mark_pointers s)"
        by (simp add: parent_def)
    qed
    ultimately show ?thesis
      by (intro exI [of _ "[(Back parent, live s, length (stack_mark_pointers s))]"] exI [of _ "0::nat"]) simp
  next
    case True
    define s2 where "s2 = CLFlush (own + i) s1"
    have s2: "s2 = s\<lparr>cache := cache s - {line_of (own + i)},
                     trace := trace s @ [(Back parent, live s, length (stack_mark_pointers s)),
                                         (Flush (own + i), live s, length (stack_mark_pointers s))]\<rparr>"
      by (simp add: s2_def s1_def CLFlush_def note_event_def)
    have nowrap: "to_int32 (i + ls) = i + ls"
      using True less.prems by (intro to_int32_id) (simp_all add: parent_def)
    have step: "flush_loop_ca ls i own s = flush_loop_ca ls (i + ls) own s2"
      using b True nowrap by (subst flush_loop_ca.simps) (simp add: s2_def)
    have smp2: "stack_mark_pointers s2 = stack_mark_pointers s" by (simp add: s2)
    have "nat (last (stack_mark_pointers s2) - own - (i + ls)) < nat (last (stack_mark_pointers s) - own - i)"
      using True less.prems(2) by (simp add: smp2 parent_def)
    from less.hyps [OF this] less.prems smp2
    obtain evs' n' where
      r: "flush_loop_ca ls (i + ls) own s2 =
            Some (Inr (s2\<lparr>cache := cache s2 - line_of ` set (flushes evs'), trace := trace s2 @ evs'\<rparr>))"
      and p: "evict_points s2 evs'"
      and f: "flushes evs' = map (\<lambda>k. own + (i + ls) + int k * ls) [0..<n']"
      and c: "\<forall>k. k < n' \<longleftrightarrow> own + (i + ls) + int k * ls < last (stack_mark_pointers s)"
      by fastforce
    define evs where "evs = [(Back parent, live s, length (stack_mark_pointers s)),
                             (Flush (own + i), live s, length (stack_mark_pointers s))] @ evs'"
    have "flush_loop_ca ls i own s =
            Some (Inr (s\<lparr>cache := cache s - line_of ` set (flushes evs), trace := trace s @ evs\<rparr>))"
      unfolding step r by (simp add: s2 evs_def Diff_insert2 [symmetric] insert_commute) 
    moreover have "evict_points s evs"
      using p by (simp add: evict_points_def evs_def s2)
    moreover have "flushes evs = map (\<lambda>k. own + i + int k * ls) [0..<Suc n']"
      unfolding evs_def by (simp add: f map_upt_Suc algebra_simps del: upt_Suc)
    moreover have "\<forall>k. k < Suc n' \<longleftrightarrow> own + i + int k * ls < last (stack_mark_pointers s)"
    proof
      fix k
      show "k < Suc n' \<longleftrightarrow> own + i + int k * ls < last (stack_mark_pointers s)"
      proof (cases k)
        case 0
        with True show ?thesis by (simp add: parent_def)
      next
        case (Suc j)
        with c [rule_format, of j] show ?thesis by (simp add: algebra_simps)
      qed
    qed
    ultimately show ?thesis by blast
  qed
qed

lemmas flush_loop_ca_induct = flush_loop_ca.raw_induct [rotated 1, consumes 1, case_names step]

lemma flush_loop_ca_sim:
  assumes "flush_loop_ca ls i own s = Some r" "stack_mark_pointers s \<noteq> []"
  shows "\<exists>L. \<forall>t. stack_mark_pointers t = stack_mark_pointers s \<longrightarrow>
           (\<exists>t'. flush_loop_ca ls i own t = Some (Inr t') \<and> cache t' = cache t - L \<and>
                 stack_mark_pointers t' = stack_mark_pointers t)"
  using assms
proof (induction rule: flush_loop_ca_induct)
  case (step loop ls i own s r)
  define parent where "parent = last (stack_mark_pointers s)"
  have bk: "back_op t = Inr (parent, note_event (Back parent) t)"
    if "stack_mark_pointers t = stack_mark_pointers s" for t :: state
    using that step.prems by (simp add: back_op_def parent_def)
  show ?case
  proof (cases "i < parent - own")
    case False
    have "\<forall>t. stack_mark_pointers t = stack_mark_pointers s \<longrightarrow>
           (\<exists>t'. flush_loop_ca ls i own t = Some (Inr t') \<and> cache t' = cache t - {} \<and>
                 stack_mark_pointers t' = stack_mark_pointers t)"
    proof (intro allI impI)
      fix t :: state assume t: "stack_mark_pointers t = stack_mark_pointers s"
      have "flush_loop_ca ls i own t = Some (Inr (note_event (Back parent) t))"
        using bk [OF t] False by (subst flush_loop_ca.simps) simp
      then show "\<exists>t'. flush_loop_ca ls i own t = Some (Inr t') \<and> cache t' = cache t - {} \<and>
                 stack_mark_pointers t' = stack_mark_pointers t"
        by simp
    qed
    then show ?thesis by blast
  next
    case True
    have "loop ls (to_int32 (i + ls)) own (CLFlush (own + i) (note_event (Back parent) s)) = Some r"
      using step.hyps bk [OF refl] True by simp
    from step.IH [OF this] obtain L where
      L: "\<forall>t. stack_mark_pointers t = stack_mark_pointers s \<longrightarrow>
            (\<exists>t'. flush_loop_ca ls (to_int32 (i + ls)) own t = Some (Inr t') \<and> cache t' = cache t - L \<and>
                  stack_mark_pointers t' = stack_mark_pointers t)"
      using step.prems by (auto simp: CLFlush_def)
    have "\<forall>t. stack_mark_pointers t = stack_mark_pointers s \<longrightarrow>
           (\<exists>t'. flush_loop_ca ls i own t = Some (Inr t') \<and> cache t' = cache t - insert (line_of (own + i)) L \<and>
                 stack_mark_pointers t' = stack_mark_pointers t)"
    proof (intro allI impI)
      fix t :: state assume t: "stack_mark_pointers t = stack_mark_pointers s"
      define t2 where "t2 = CLFlush (own + i) (note_event (Back parent) t)"
      have t2: "stack_mark_pointers t2 = stack_mark_pointers s" "cache t2 = cache t - {line_of (own + i)}"
        by (simp_all add: t2_def CLFlush_def t)
      have "flush_loop_ca ls i own t = flush_loop_ca ls (to_int32 (i + ls)) own t2"
        using bk [OF t] True by (subst flush_loop_ca.simps) (simp add: t2_def)
      moreover from L t2(1) obtain t' where
        "flush_loop_ca ls (to_int32 (i + ls)) own t2 = Some (Inr t')" "cache t' = cache t2 - L"
        "stack_mark_pointers t' = stack_mark_pointers t2"
        by blast
      ultimately show "\<exists>t'. flush_loop_ca ls i own t = Some (Inr t') \<and>
          cache t' = cache t - insert (line_of (own + i)) L \<and>
          stack_mark_pointers t' = stack_mark_pointers t"
        using t2 t by auto
    qed
    then show ?thesis by blast
  qed
qed

lemma flush_loop_ca_empty:
  "stack_mark_pointers s = [] \<Longrightarrow> flush_loop_ca ls i own s = Some (Inl (EmptyVector, s))"
  by (subst flush_loop_ca.simps) (simp add: back_op_def)

lemma evict_ca_empty:
  "stack_mark_pointers s = [] \<Longrightarrow> evict_ca ls own s = Some (Inl (EmptyVector, s))"
  by (simp add: evict_ca_def flush_loop_ca_empty)

lemma evict_ca_sim:
  assumes "evict_ca ls own s = Some (Inr s1)"
  shows "\<exists>L. \<forall>t. stack_mark_pointers t = stack_mark_pointers s \<longrightarrow>
           (\<exists>t'. evict_ca ls own t = Some (Inr t') \<and> cache t' = cache t - L \<and>
                 stack_mark_pointers t' = stack_mark_pointers t)"
proof -
  have ne: "stack_mark_pointers s \<noteq> []"
    using assms by (auto simp: evict_ca_empty)
  from assms obtain u where u: "flush_loop_ca ls 0 own s = Some (Inr u)"
    by (auto simp: evict_ca_def split: option.splits sum.splits)
  from flush_loop_ca_sim [OF u ne] obtain L where
    L: "\<forall>t. stack_mark_pointers t = stack_mark_pointers s \<longrightarrow>
           (\<exists>t'. flush_loop_ca ls 0 own t = Some (Inr t') \<and> cache t' = cache t - L \<and>
                 stack_mark_pointers t' = stack_mark_pointers t)"
    by blast
  define parent where "parent = last (stack_mark_pointers s)"
  have "\<forall>t. stack_mark_pointers t = stack_mark_pointers s \<longrightarrow>
           (\<exists>t'. evict_ca ls own t = Some (Inr t') \<and> cache t' = cache t - insert (line_of parent) L \<and>
                 stack_mark_pointers t' = stack_mark_pointers t)"
  proof (intro allI impI)
    fix t :: state assume t: "stack_mark_pointers t = stack_mark_pointers s"
    with L obtain t1 where t1: "flush_loop_ca ls 0 own t = Some (Inr t1)" "cache t1 = cache t - L"
      "stack_mark_pointers t1 = stack_mark_pointers t"
      by blast
    have "evict_ca ls own t = Some (Inr (CLFlush parent (note_event (Back parent) t1)))"
      using t1 t ne by (simp add: evict_ca_def back_op_def parent_def)
    moreover have "cache (CLFlush parent (note_event (Back parent) t1)) = cache t - insert (line_of parent) L"
      using t1 by (auto simp: CLFlush_def)
    moreover have "stack_mark_pointers (CLFlush parent (note_event (Back parent) t1)) = stack_mark_pointers t"
      using t1 by (simp add: CLFlush_def)
    ultimately show "\<exists>t'. evict_ca ls own t = Some (Inr t') \<and> cache t' = cache t - insert (line_of parent) L \<and>
                 stack_mark_pointers t' = stack_mark_pointers t"
      by blast
  qed
  then show ?thesis by blast
qed

text \<open>
  C8. For every range, stride and state, the cache after the eviction done twice in a
  row is the cache after the eviction done once.
\<close>

theorem evict_ca_idempotent:
  "cache_after (evict_twice_ca ls own s) = cache_after (evict_ca ls own s)"
proof (cases "evict_ca ls own s")
  case None
  then show ?thesis by (simp add: evict_twice_ca_def)
next
  case (Some r)
  show ?thesis
  proof (cases r)
    case (Inl e)
    with Some show ?thesis by (simp add: evict_twice_ca_def)
  next
    case (Inr s1)
    with Some have e: "evict_ca ls own s = Some (Inr s1)" by simp
    from evict_ca_sim [OF e] obtain L where
      L: "\<forall>t. stack_mark_pointers t = stack_mark_pointers s \<longrightarrow>
           (\<exists>t'. evict_ca ls own t = Some (Inr t') \<and> cache t' = cache t - L \<and>
                 stack_mark_pointers t' = stack_mark_pointers t)"
      by blast
    from L [rule_format, of s] e have s1: "cache s1 = cache s - L" "stack_mark_pointers s1 = stack_mark_pointers s"
      by auto
    from L [rule_format, of s1] s1 obtain s2 where
      s2: "evict_ca ls own s1 = Some (Inr s2)" "cache s2 = cache s1 - L"
      by auto
    have "cache s2 = cache s1" using s2(2) s1(1) by auto
    with e s2(1) show ?thesis by (simp add: evict_twice_ca_def cache_after_def)
  qed
qed

text \<open>
  The reach of the loop variable: with the stride 64 and a distance above \<open>2 ^ 31 - 64\<close>
  the variable wraps round before it gets to the distance, and the loop does not return.
\<close>

lemma to_int32_range: "- (2 ^ 31) \<le> to_int32 x" "to_int32 x < 2 ^ 31"
  by (simp_all add: to_int32_def)

lemma to_int32_dvd:
  assumes "(64::int) dvd x"
  shows "64 dvd to_int32 x"
proof -
  have a: "(64::int) dvd 2 ^ 31" and b: "(64::int) dvd 2 ^ 32"
    by simp_all
  from assms a have "64 dvd x + 2 ^ 31" by (rule dvd_add)
  then have "64 dvd (x + 2 ^ 31) mod 2 ^ 32" using b by (simp add: dvd_mod)
  then show ?thesis unfolding to_int32_def using a by (rule dvd_diff)
qed

lemma multiple_below:
  assumes "(64::int) dvd i" "i < 2 ^ 31"
  shows "i \<le> 2 ^ 31 - 64"
proof -
  from assms(1) obtain k where k: "i = 64 * k" by (auto simp: dvd_def)
  with assms(2) have "k < 33554432" by simp
  then have "k \<le> 33554431" by simp
  with k show ?thesis by simp
qed

lemma flush_loop_ca_never:
  assumes "flush_loop_ca ls i own s = Some r"
    and "ls = 64" "stack_mark_pointers s \<noteq> []" "2 ^ 31 - 64 < last (stack_mark_pointers s) - own"
    and "64 dvd i" "- (2 ^ 31) \<le> i" "i < 2 ^ 31"
  shows False
  using assms
proof (induction rule: flush_loop_ca_induct)
  case (step loop ls i own s r)
  define parent where "parent = last (stack_mark_pointers s)"
  have "i \<le> 2 ^ 31 - 64" using step.prems(4,6) by (rule multiple_below)
  then have g: "i < parent - own" using step.prems(3) by (simp add: parent_def)
  have "loop ls (to_int32 (i + ls)) own (CLFlush (own + i) (note_event (Back parent) s)) = Some r"
    using step.hyps step.prems(2) g by (simp add: back_op_def parent_def)
  from step.IH [OF this] step.prems to_int32_range [of "i + ls"] to_int32_dvd [of "i + ls"]
  show ?case
    by (simp add: CLFlush_def)
qed

lemma evict_ca_diverges:
  assumes "stack_mark_pointers s \<noteq> []" "2 ^ 31 - 64 < last (stack_mark_pointers s) - own"
  shows "evict_ca 64 own s = None"
proof -
  have "flush_loop_ca 64 0 own s = None"
  proof (cases "flush_loop_ca 64 0 own s")
    case (Some r)
    from flush_loop_ca_never [OF Some refl assms] show ?thesis by simp
  qed simp
  then show ?thesis by (simp add: evict_ca_def)
qed

lemma evict_ca_ok:
  assumes "stack_mark_pointers s \<noteq> []" "0 < ls"
    and "last (stack_mark_pointers s) - own + ls \<le> 2 ^ 31"
  shows "\<exists>evs n. evict_ca ls own s =
            Some (Inr (s\<lparr>cache := cache s - line_of ` set (flushes evs), trace := trace s @ evs\<rparr>)) \<and>
          evict_points s evs \<and>
          flushes evs = map (\<lambda>k. own + int k * ls) [0..<n] @ [last (stack_mark_pointers s)] \<and>
          (\<forall>k. k < n \<longleftrightarrow> own + int k * ls < last (stack_mark_pointers s)) \<and>
          (Back (last (stack_mark_pointers s)), live s, length (stack_mark_pointers s)) \<in> set evs"
proof -
  define parent where "parent = last (stack_mark_pointers s)"
  from flush_loop_ca_ok [OF assms, of 0] obtain evs n where
    r: "flush_loop_ca ls 0 own s =
          Some (Inr (s\<lparr>cache := cache s - line_of ` set (flushes evs), trace := trace s @ evs\<rparr>))"
    and p: "evict_points s evs"
    and f: "flushes evs = map (\<lambda>k. own + int k * ls) [0..<n]"
    and c: "\<forall>k. k < n \<longleftrightarrow> own + int k * ls < last (stack_mark_pointers s)"
    by auto
  define evs' where "evs' = evs @ [(Back parent, live s, length (stack_mark_pointers s)),
                                  (Flush parent, live s, length (stack_mark_pointers s))]"
  have "evict_ca ls own s =
          Some (Inr (s\<lparr>cache := cache s - line_of ` set (flushes evs'), trace := trace s @ evs'\<rparr>))"
    using assms(1) unfolding evict_ca_def r
    by (simp add: back_op_def CLFlush_def note_event_def evs'_def parent_def Diff_insert [symmetric])
  moreover have "evict_points s evs'"
    using p by (simp add: evict_points_def evs'_def)
  moreover have "flushes evs' = map (\<lambda>k. own + int k * ls) [0..<n] @ [last (stack_mark_pointers s)]"
    by (simp add: evs'_def f parent_def)
  moreover have "(Back (last (stack_mark_pointers s)), live s, length (stack_mark_pointers s)) \<in> set evs'"
    by (simp add: evs'_def parent_def)
  ultimately show ?thesis using c by blast
qed

lemma ranges_append [simp]: "ranges (xs @ ys) = ranges xs @ ranges ys"
  by (induction xs rule: ranges.induct) simp_all

text \<open>
  C7. For every mark \<open>own\<close> of the activation and every mark \<open>parent\<close> on top of the
  vector: in the two-process program, for every positive stride \<open>ls\<close> with the distance
  \<open>parent - own\<close> within reach of the 32-bit loop variable, as it is between the marks of
  nested activations, the eviction flushes exactly the addresses \<open>own + k * ls\<close> below
  \<open>parent\<close>, for \<open>k = 0, 1, \<dots>\<close> in this order, and then \<open>parent\<close> itself, whether or not
  the distance is a multiple of the stride; the program's stride is \<open>kCacheLineSize\<close>.
  In the single-process program the activation, with its own mark \<open>m\<close> still on the
  vector, removes it and makes the one call of \<^verbatim>\<open>FlushFromDataCache\<close> on the range from
  \<open>own\<close> to \<open>parent\<close>.
\<close>

theorem eviction_flushes:
  assumes "stack_mark_pointers s \<noteq> []" "last (stack_mark_pointers s) = parent"
  shows "(0 < ls \<and> parent - own + ls \<le> 2 ^ 31 \<longrightarrow>
            (\<exists>s' n. evict_ca ls own s = Some (Inr s') \<and>
               flushed s' = flushed s @ map (\<lambda>k. own + int k * ls) [0..<n] @ [parent] \<and>
               (\<forall>k. k < n \<longleftrightarrow> own + int k * ls < parent))) \<and>
         (\<exists>s'. unwind_sa E own (s\<lparr>stack_mark_pointers := stack_mark_pointers s @ [m]\<rparr>) = Inr (True, s') \<and>
               flushed_ranges s' = flushed_ranges s @ [(own, parent)] \<and>
               cache s' = FlushFromDataCache E own parent (cache s) \<and>
               stack_mark_pointers s' = stack_mark_pointers s)"
proof (intro conjI impI)
  assume a: "0 < ls \<and> parent - own + ls \<le> 2 ^ 31"
  with assms have "0 < ls" "last (stack_mark_pointers s) - own + ls \<le> 2 ^ 31" by simp_all
  from evict_ca_ok [OF assms(1) this] assms(2)
  show "\<exists>s' n. evict_ca ls own s = Some (Inr s') \<and>
          flushed s' = flushed s @ map (\<lambda>k. own + int k * ls) [0..<n] @ [parent] \<and>
          (\<forall>k. k < n \<longleftrightarrow> own + int k * ls < parent)"
    by (fastforce simp: flushed_def)
next
  show "\<exists>s'. unwind_sa E own (s\<lparr>stack_mark_pointers := stack_mark_pointers s @ [m]\<rparr>) = Inr (True, s') \<and>
          flushed_ranges s' = flushed_ranges s @ [(own, parent)] \<and>
          cache s' = FlushFromDataCache E own parent (cache s) \<and>
          stack_mark_pointers s' = stack_mark_pointers s"
    using assms
    by (simp add: unwind_sa_def pop_back_def back_op_def note_event_def Let_def flushed_ranges_def)
qed

text \<open>The eviction of the range from 0 to 130 with stride 64, evaluated.\<close>

lemma evict_ex_eval:
  "map_option (map_sum (\<lambda>(e, s). (e, flushed s)) (\<lambda>s. (flushed s, cache s))) (evict_ca 64 0 evict_ex)
     = Some (Inr ([0, 64, 128, 130], {3, 5}))"
  by code_simp

theorem eviction_flushes_witness:
  "stack_mark_pointers evict_ex \<noteq> [] \<and> last (stack_mark_pointers evict_ex) = 130 \<and>
   (0::int) < 64 \<and> (130::int) - 0 + 64 \<le> 2 ^ 31 \<and>
   (\<exists>s' n. evict_ca 64 0 evict_ex = Some (Inr s') \<and>
      flushed s' = flushed evict_ex @ map (\<lambda>k. 0 + int k * 64) [0..<n] @ [130] \<and>
      (\<forall>k. k < n \<longleftrightarrow> 0 + int k * 64 < 130)) \<and>
   (\<exists>s'. unwind_sa (env_ex False) 0 (evict_ex\<lparr>stack_mark_pointers := stack_mark_pointers evict_ex @ [0]\<rparr>)
            = Inr (True, s') \<and>
      flushed_ranges s' = flushed_ranges evict_ex @ [(0, 130)] \<and>
      cache s' = FlushFromDataCache (env_ex False) 0 130 (cache evict_ex) \<and>
      stack_mark_pointers s' = stack_mark_pointers evict_ex)"
  using eviction_flushes [of evict_ex 130 64 0 "env_ex False" 0]
  by (simp add: evict_ex_def state_ex_def)

theorem evict_ca_idempotent_witness:
  "cache_after (evict_twice_ca 64 0 evict_ex) = cache_after (evict_ca 64 0 evict_ex) \<and>
   cache_after (evict_ca 64 0 evict_ex) = Some {3, 5}"
proof -
  have "cache_after (evict_ca 64 0 evict_ex) = Some {3, 5}" by code_simp
  with evict_ca_idempotent [of 64 0 evict_ex] show ?thesis by simp
qed
section \<open>Properties of ReturnsTrue\<close>

lemma unwind_sa_ok:
  assumes "stack_mark_pointers s = xs @ [p]" "xs \<noteq> []"
  shows "unwind_sa E own s =
     Inr (True, s\<lparr>stack_mark_pointers := xs, live := live s - 1,
                  cache := FlushFromDataCache E own (last xs) (cache s),
                  trace := trace s @ [(Pop, live s, length xs), (Back (last xs), live s, length xs),
                                      (FlushRange own (last xs), live s, length xs)]\<rparr>)"
  using assms by (simp add: unwind_sa_def pop_back_def back_op_def note_event_def Let_def)

lemma ReturnsTrue_sa_ok:
  assumes "stack_mark_pointers s \<noteq> []" "false_value s = False"
  shows "\<exists>c' evs. ReturnsTrue_sa E counter s = Inr (True, s\<lparr>cache := c', trace := trace s @ evs\<rparr>) \<and>
           list_all (\<lambda>p. frame_event (fst p)) evs \<and>
           calls_of kRecursionDepth evs = (if kRecursionDepth \<le> counter then 1 else 0) \<and>
           (length (stack_mark_pointers s) = live s + 1 \<longrightarrow> list_all point_ok evs) \<and>
           (Back (last (stack_mark_pointers s)), live s + 1, length (stack_mark_pointers s)) \<in> set evs"
  using assms
proof (induction E counter s rule: ReturnsTrue_sa.induct)
  case (1 E counter s)
  define s0 where "s0 = note_event (Call counter) (s\<lparr>live := live s + 1\<rparr>)"
  define own where "own = frame_mark E (live s0)"
  define s1 where "s1 = push_back own s0"
  have s1: "s1 = s\<lparr>stack_mark_pointers := stack_mark_pointers s @ [own], live := live s + 1,
                  trace := trace s @ [(Call counter, live s + 1, length (stack_mark_pointers s)),
                                      (Push own, live s + 1, length (stack_mark_pointers s) + 1)]\<rparr>"
    by (simp add: s1_def s0_def push_back_def note_event_def)
  have pre: "stack_mark_pointers s1 \<noteq> []" "false_value s1 = False"
    using "1.prems" by (simp_all add: s1)
  have "\<exists>c1 evs1. (if counter > 0 then ReturnsTrue_sa E (counter - 1) s1
                    else ReturnsFalse_sa E kRecursionDepth s1)
            = Inr (True \<and> counter > 0, s1\<lparr>cache := c1, trace := trace s1 @ evs1\<rparr>) \<and>
           list_all (\<lambda>p. frame_event (fst p)) evs1 \<and>
           calls_of kRecursionDepth evs1 = (if kRecursionDepth \<le> counter - 1 \<and> counter > 0 then 1 else 0) \<and>
           (length (stack_mark_pointers s1) = live s1 + 1 \<longrightarrow> list_all point_ok evs1)"
  proof (cases "counter > 0")
    case True
    from "1.IH" [OF s0_def own_def s1_def True pre] obtain c1 evs1 where
      "ReturnsTrue_sa E (counter - 1) s1 = Inr (True, s1\<lparr>cache := c1, trace := trace s1 @ evs1\<rparr>)"
      "list_all (\<lambda>p. frame_event (fst p)) evs1"
      "calls_of kRecursionDepth evs1 = (if kRecursionDepth \<le> counter - 1 then 1 else 0)"
      "length (stack_mark_pointers s1) = live s1 + 1 \<longrightarrow> list_all point_ok evs1"
      by blast
    with True show ?thesis by (intro exI [of _ c1] exI [of _ evs1]) simp
  next
    case False
    have "ReturnsFalse_sa E kRecursionDepth s1 = Inr (False, s1\<lparr>cache := cache s1, trace := trace s1 @ []\<rparr>)"
      using pre by (simp add: ReturnsFalse_sa_eq)
    with False show ?thesis by (intro exI [of _ "cache s1"] exI [of _ "[]"]) (simp add: calls_of_def)
  qed
  then obtain c1 evs1 where
    r: "(if counter > 0 then ReturnsTrue_sa E (counter - 1) s1 else ReturnsFalse_sa E kRecursionDepth s1)
          = Inr (True \<and> counter > 0, s1\<lparr>cache := c1, trace := trace s1 @ evs1\<rparr>)"
    and e1: "list_all (\<lambda>p. frame_event (fst p)) evs1"
    and k1: "calls_of kRecursionDepth evs1 = (if kRecursionDepth \<le> counter - 1 \<and> counter > 0 then 1 else 0)"
    and p1: "length (stack_mark_pointers s1) = live s1 + 1 \<longrightarrow> list_all point_ok evs1"
    by blast
  define s2 where "s2 = s1\<lparr>cache := c1, trace := trace s1 @ evs1\<rparr>"
  have smp2: "stack_mark_pointers s2 = stack_mark_pointers s @ [own]"
    by (simp add: s2_def s1)
  define c' where "c' = FlushFromDataCache E own (last (stack_mark_pointers s)) (cache s2)"
  have u: "unwind_sa E own s2 =
          Inr (True, s2\<lparr>stack_mark_pointers := stack_mark_pointers s, live := live s2 - 1, cache := c',
                 trace := trace s2 @ [(Pop, live s2, length (stack_mark_pointers s)),
                    (Back (last (stack_mark_pointers s)), live s2, length (stack_mark_pointers s)),
                    (FlushRange own (last (stack_mark_pointers s)), live s2, length (stack_mark_pointers s))]\<rparr>)"
    unfolding c'_def by (rule unwind_sa_ok [OF smp2 "1.prems"(1)])
  define evs where "evs = [(Call counter, live s + 1, length (stack_mark_pointers s)),
                           (Push own, live s + 1, length (stack_mark_pointers s) + 1)] @ evs1 @
                          [(Pop, live s + 1, length (stack_mark_pointers s)),
                           (Back (last (stack_mark_pointers s)), live s + 1, length (stack_mark_pointers s)),
                           (FlushRange own (last (stack_mark_pointers s)), live s + 1, length (stack_mark_pointers s))]"
  have res: "ReturnsTrue_sa E counter s = Inr (True, s\<lparr>cache := c', trace := trace s @ evs\<rparr>)"
  proof -
    have "ReturnsTrue_sa E counter s = unwind_sa E own s2"
      using r by (subst ReturnsTrue_sa.simps) (simp add: s2_def s1_def s0_def own_def Let_def split: if_splits)
    also have "\<dots> = Inr (True, s\<lparr>cache := c', trace := trace s @ evs\<rparr>)"
      unfolding u by (simp add: s2_def s1 evs_def)
    finally show ?thesis .
  qed
  have "list_all (\<lambda>p. frame_event (fst p)) evs"
    using e1 by (simp add: evs_def)
  moreover have "calls_of kRecursionDepth evs = (if kRecursionDepth \<le> counter then 1 else 0)"
    using k1 by (auto simp: evs_def calls_of_def kRecursionDepth_def)
  moreover have "length (stack_mark_pointers s) = live s + 1 \<longrightarrow> list_all point_ok evs"
    using p1 "1.prems"(1) by (simp add: evs_def s1)
  moreover have "(Back (last (stack_mark_pointers s)), live s + 1, length (stack_mark_pointers s)) \<in> set evs"
    by (simp add: evs_def)
  ultimately show ?case using res by blast
qed

lemma unwind_ca_ok:
  assumes "stack_mark_pointers s = xs @ [p]" "xs \<noteq> []"
    and "last xs - own \<le> 2 ^ 31 - kCacheLineSize"
  shows "\<exists>c' evs. unwind_ca own s =
            Some (Inr (True, s\<lparr>stack_mark_pointers := xs, live := live s - 1, cache := c',
                                trace := trace s @ (Pop, live s, length xs) # evs\<rparr>)) \<and>
          list_all (\<lambda>(e, d, n). is_evict_event e \<and> d = live s \<and> n = length xs) evs \<and>
          (Back (last xs), live s, length xs) \<in> set evs"
proof -
  define s1 where "s1 = note_event Pop (s\<lparr>stack_mark_pointers := xs\<rparr>)"
  have pop: "pop_back s = Inr s1"
    using assms(1) by (simp add: pop_back_def s1_def)
  have s1: "stack_mark_pointers s1 = xs" "live s1 = live s"
    "trace s1 = trace s @ [(Pop, live s, length xs)]"
    by (simp_all add: s1_def)
  have "stack_mark_pointers s1 \<noteq> []" "0 < kCacheLineSize"
    "last (stack_mark_pointers s1) - own + kCacheLineSize \<le> 2 ^ 31"
    using assms(2,3) by (simp_all add: s1 kCacheLineSize_def)
  from evict_ca_ok [OF this] obtain evs where
    r: "evict_ca kCacheLineSize own s1 =
          Some (Inr (s1\<lparr>cache := cache s1 - line_of ` set (flushes evs), trace := trace s1 @ evs\<rparr>))"
    and p: "evict_points s1 evs"
    and b: "(Back (last (stack_mark_pointers s1)), live s1, length (stack_mark_pointers s1)) \<in> set evs"
    by blast
  have "unwind_ca own s =
          Some (Inr (True, s\<lparr>stack_mark_pointers := xs, live := live s - 1,
                              cache := cache s1 - line_of ` set (flushes evs),
                              trace := trace s @ (Pop, live s, length xs) # evs\<rparr>))"
    by (simp add: unwind_ca_def pop r) (simp add: s1_def note_event_def)
  moreover have "list_all (\<lambda>(e, d, n). is_evict_event e \<and> d = live s \<and> n = length xs) evs"
    using p by (simp add: evict_points_def s1)
  moreover have "(Back (last xs), live s, length xs) \<in> set evs"
    using b by (simp add: s1)
  ultimately show ?thesis by blast
qed

lemma evict_event_frame: "is_evict_event e \<Longrightarrow> frame_event e"
  by (cases e) simp_all

lemma evict_event_not_call: "is_evict_event e \<Longrightarrow> e \<noteq> Call c"
  by (cases e) simp_all

lemma evict_point_ok: "is_evict_event e \<Longrightarrow> 0 < n \<Longrightarrow> point_ok (e, n, n)"
  by (cases e) simp_all

lemma evict_list_props:
  assumes "list_all (\<lambda>(e, d, n). is_evict_event e \<and> d = dd \<and> n = nn) evs"
  shows "list_all (\<lambda>p. frame_event (fst p)) evs" "calls_of c evs = 0"
    "dd = nn \<Longrightarrow> 0 < nn \<Longrightarrow> list_all point_ok evs"
  using assms
  by (induction evs; auto simp: calls_of_def evict_event_frame evict_event_not_call evict_point_ok)+

lemma ReturnsTrue_ca_ok:
  assumes "stack_mark_pointers s \<noteq> []" "frames_near E"
    and "last (stack_mark_pointers s) - frame_mark E (live s + 1) \<le> 2 ^ 31 - kCacheLineSize"
  shows "\<exists>c' evs. ReturnsTrue_ca E counter s = Some (Inr (True, s\<lparr>cache := c', trace := trace s @ evs\<rparr>)) \<and>
           list_all (\<lambda>p. frame_event (fst p)) evs \<and>
           calls_of kRecursionDepth evs = (if kRecursionDepth \<le> counter then 1 else 0) \<and>
           (length (stack_mark_pointers s) = live s + 1 \<longrightarrow> list_all point_ok evs) \<and>
           (Back (last (stack_mark_pointers s)), live s + 1, length (stack_mark_pointers s)) \<in> set evs"
  using assms
proof (induction E counter s rule: ReturnsTrue_ca.induct)
  case (1 E counter s)
  define s0 where "s0 = note_event (Call counter) (s\<lparr>live := live s + 1\<rparr>)"
  define own where "own = frame_mark E (live s0)"
  define s1 where "s1 = push_back own s0"
  have own: "own = frame_mark E (live s + 1)" by (simp add: own_def s0_def)
  have s1: "s1 = s\<lparr>stack_mark_pointers := stack_mark_pointers s @ [own], live := live s + 1,
                  trace := trace s @ [(Call counter, live s + 1, length (stack_mark_pointers s)),
                                      (Push own, live s + 1, length (stack_mark_pointers s) + 1)]\<rparr>"
    by (simp add: s1_def s0_def push_back_def note_event_def)
  have pre: "stack_mark_pointers s1 \<noteq> []" "frames_near E"
    "last (stack_mark_pointers s1) - frame_mark E (live s1 + 1) \<le> 2 ^ 31 - kCacheLineSize"
    using "1.prems"(2) by (simp_all add: s1 own frames_near_def)
  have "\<exists>c1 evs1. (if counter > 0 then ReturnsTrue_ca E (counter - 1) s1
                    else Some (Inr (True, sched_yield s1)))
            = Some (Inr (True, s1\<lparr>cache := c1, trace := trace s1 @ evs1\<rparr>)) \<and>
           list_all (\<lambda>p. frame_event (fst p)) evs1 \<and>
           calls_of kRecursionDepth evs1 = (if kRecursionDepth \<le> counter - 1 \<and> counter > 0 then 1 else 0) \<and>
           (length (stack_mark_pointers s1) = live s1 + 1 \<longrightarrow> list_all point_ok evs1)"
  proof (cases "counter > 0")
    case True
    from "1.IH" [OF s0_def own_def s1_def True pre] obtain c1 evs1 where
      "ReturnsTrue_ca E (counter - 1) s1 = Some (Inr (True, s1\<lparr>cache := c1, trace := trace s1 @ evs1\<rparr>))"
      "list_all (\<lambda>p. frame_event (fst p)) evs1"
      "calls_of kRecursionDepth evs1 = (if kRecursionDepth \<le> counter - 1 then 1 else 0)"
      "length (stack_mark_pointers s1) = live s1 + 1 \<longrightarrow> list_all point_ok evs1"
      by blast
    with True show ?thesis by (intro exI [of _ c1] exI [of _ evs1]) simp
  next
    case False
    have "sched_yield s1 = s1\<lparr>cache := cache s1,
            trace := trace s1 @ [(Yield, live s1, length (stack_mark_pointers s1))]\<rparr>"
      by (simp add: sched_yield_def note_event_def)
    with False show ?thesis
      by (intro exI [of _ "cache s1"] exI [of _ "[(Yield, live s1, length (stack_mark_pointers s1))]"])
         (simp add: calls_of_def)
  qed
  then obtain c1 evs1 where
    r: "(if counter > 0 then ReturnsTrue_ca E (counter - 1) s1 else Some (Inr (True, sched_yield s1)))
          = Some (Inr (True, s1\<lparr>cache := c1, trace := trace s1 @ evs1\<rparr>))"
    and e1: "list_all (\<lambda>p. frame_event (fst p)) evs1"
    and k1: "calls_of kRecursionDepth evs1 = (if kRecursionDepth \<le> counter - 1 \<and> counter > 0 then 1 else 0)"
    and p1: "length (stack_mark_pointers s1) = live s1 + 1 \<longrightarrow> list_all point_ok evs1"
    by blast
  define s2 where "s2 = s1\<lparr>cache := c1, trace := trace s1 @ evs1\<rparr>"
  have smp2: "stack_mark_pointers s2 = stack_mark_pointers s @ [own]"
    by (simp add: s2_def s1)
  have "last (stack_mark_pointers s) - own \<le> 2 ^ 31 - kCacheLineSize"
    using "1.prems"(3) by (simp add: own)
  from unwind_ca_ok [OF smp2 "1.prems"(1) this] obtain c' evs2 where
    u: "unwind_ca own s2 =
          Some (Inr (True, s2\<lparr>stack_mark_pointers := stack_mark_pointers s, live := live s2 - 1, cache := c',
                 trace := trace s2 @ (Pop, live s2, length (stack_mark_pointers s)) # evs2\<rparr>))"
    and e2: "list_all (\<lambda>(e, d, n). is_evict_event e \<and> d = live s2 \<and> n = length (stack_mark_pointers s)) evs2"
    and b2: "(Back (last (stack_mark_pointers s)), live s2, length (stack_mark_pointers s)) \<in> set evs2"
    by blast
  have live2: "live s2 = live s + 1" by (simp add: s2_def s1)
  define evs where "evs = [(Call counter, live s + 1, length (stack_mark_pointers s)),
                           (Push own, live s + 1, length (stack_mark_pointers s) + 1)] @ evs1 @
                          (Pop, live s + 1, length (stack_mark_pointers s)) # evs2"
  have res: "ReturnsTrue_ca E counter s = Some (Inr (True, s\<lparr>cache := c', trace := trace s @ evs\<rparr>))"
  proof -
    have "ReturnsTrue_ca E counter s = unwind_ca own s2"
      using r by (subst ReturnsTrue_ca.simps) (simp add: s2_def s1_def s0_def own_def Let_def split: if_splits)
    also have "\<dots> = Some (Inr (True, s\<lparr>cache := c', trace := trace s @ evs\<rparr>))"
      unfolding u by (simp add: s2_def s1 evs_def)
    finally show ?thesis .
  qed
  note props = evict_list_props [OF e2]
  have "list_all (\<lambda>p. frame_event (fst p)) evs"
    using e1 props(1) by (simp add: evs_def)
  moreover have "calls_of kRecursionDepth evs = (if kRecursionDepth \<le> counter then 1 else 0)"
    using k1 props(2) [of kRecursionDepth] by (auto simp: evs_def calls_of_def kRecursionDepth_def)
  moreover have "length (stack_mark_pointers s) = live s + 1 \<longrightarrow> list_all point_ok evs"
    using p1 "1.prems"(1) props(3) by (simp add: evs_def s1 live2)
  moreover have "(Back (last (stack_mark_pointers s)), live s + 1, length (stack_mark_pointers s)) \<in> set evs"
    using b2 by (simp add: evs_def live2)
  ultimately show ?case using res by blast
qed

text \<open>
  C3. For every depth and every state whose vector of marks is not empty,
  \<^verbatim>\<open>ReturnsTrue(depth)\<close> returns true and leaves the vector as it was before the call: in
  the single-process program when \<^verbatim>\<open>false_value\<close> has its initial value (the deepest
  activation calls \<^verbatim>\<open>ReturnsFalse\<close>), in the two-process program when the marks of
  callers and callees are within reach of the 32-bit loop variable of the eviction.
\<close>

theorem ReturnsTrue_returns_true:
  assumes "stack_mark_pointers s \<noteq> []"
  shows "(false_value s = False \<longrightarrow>
            (\<exists>s'. ReturnsTrue_sa E counter s = Inr (True, s') \<and>
                  stack_mark_pointers s' = stack_mark_pointers s)) \<and>
         (frames_near E \<and>
          last (stack_mark_pointers s) - frame_mark E (live s + 1) \<le> 2 ^ 31 - kCacheLineSize \<longrightarrow>
            (\<exists>s'. ReturnsTrue_ca E counter s = Some (Inr (True, s')) \<and>
                  stack_mark_pointers s' = stack_mark_pointers s))"
proof (intro conjI impI)
  assume "false_value s = False"
  from ReturnsTrue_sa_ok [OF assms this, of E counter]
  show "\<exists>s'. ReturnsTrue_sa E counter s = Inr (True, s') \<and> stack_mark_pointers s' = stack_mark_pointers s"
    by auto
next
  assume "frames_near E \<and> last (stack_mark_pointers s) - frame_mark E (live s + 1) \<le> 2 ^ 31 - kCacheLineSize"
  then have "frames_near E" "last (stack_mark_pointers s) - frame_mark E (live s + 1) \<le> 2 ^ 31 - kCacheLineSize"
    by simp_all
  from ReturnsTrue_ca_ok [OF assms this, of counter]
  show "\<exists>s'. ReturnsTrue_ca E counter s = Some (Inr (True, s')) \<and> stack_mark_pointers s' = stack_mark_pointers s"
    by auto
qed

lemma frames_near_ex: "frames_near (env_ex b)"
  by (simp add: frames_near_def env_ex_def kCacheLineSize_def)

theorem ReturnsTrue_returns_true_witness:
  "stack_mark_pointers sentinel_ex \<noteq> [] \<and> false_value sentinel_ex = False \<and>
   frames_near (env_ex False) \<and>
   last (stack_mark_pointers sentinel_ex) - frame_mark (env_ex False) (live sentinel_ex + 1)
     \<le> 2 ^ 31 - kCacheLineSize \<and>
   (\<exists>s'. ReturnsTrue_sa (env_ex False) 64 sentinel_ex = Inr (True, s') \<and>
         stack_mark_pointers s' = stack_mark_pointers sentinel_ex) \<and>
   (\<exists>s'. ReturnsTrue_ca (env_ex False) 64 sentinel_ex = Some (Inr (True, s')) \<and>
         stack_mark_pointers s' = stack_mark_pointers sentinel_ex)"
  using ReturnsTrue_returns_true [of sentinel_ex "env_ex False" 64] frames_near_ex [of False]
  by (simp add: sentinel_ex_def state_ex_def push_back_def env_ex_def kCacheLineSize_def)
section \<open>Properties of LeakByte\<close>

lemma frame_event_props:
  assumes "list_all (\<lambda>p. frame_event (fst p)) evs"
  shows "list_all (\<lambda>p. \<not> is_ForceRead (fst p)) evs" "hits evs = 0" "oracle_flushes evs = 0"
  using assms by (induction evs; auto simp: hits_def oracle_flushes_def elim: frame_event.elims)+

lemma LeakByte_trial_sa_ok:
  assumes "false_value s = False"
  shows "\<exists>c' evs. LeakByte_trial_sa E sc s =
             Inr (fst (FlushOracle E (sc, cache s)),
                  s\<lparr>cache := c', trace := trace s @ (OracleFlushed, live s, length (stack_mark_pointers s)) # evs\<rparr>) \<and>
           list_all (\<lambda>p. frame_event (fst p)) evs \<and>
           calls_of kRecursionDepth evs = 1 \<and>
           (stack_mark_pointers s = [] \<and> live s = 0 \<longrightarrow> list_all point_ok evs) \<and>
           (Back (frame_mark E (live s)), live s + 1, length (stack_mark_pointers s) + 1) \<in> set evs"
proof -
  obtain sc1 c1 where fo: "FlushOracle E (sc, cache s) = (sc1, c1)" by (cases "FlushOracle E (sc, cache s)")
  define s1 where "s1 = note_event OracleFlushed (s\<lparr>cache := c1\<rparr>)"
  define own where "own = frame_mark E (live s1)"
  define s2 where "s2 = push_back own s1"
  have s2: "s2 = s\<lparr>stack_mark_pointers := stack_mark_pointers s @ [own], cache := c1,
                   trace := trace s @ [(OracleFlushed, live s, length (stack_mark_pointers s)),
                                       (Push own, live s, length (stack_mark_pointers s) + 1)]\<rparr>"
    by (simp add: s2_def s1_def push_back_def note_event_def)
  have "stack_mark_pointers s2 \<noteq> []" "false_value s2 = False"
    using assms by (simp_all add: s2)
  from ReturnsTrue_sa_ok [OF this, of E kRecursionDepth] obtain c' evs where
    r: "ReturnsTrue_sa E kRecursionDepth s2 = Inr (True, s2\<lparr>cache := c', trace := trace s2 @ evs\<rparr>)"
    and e: "list_all (\<lambda>p. frame_event (fst p)) evs"
    and k: "calls_of kRecursionDepth evs = 1"
    and p: "length (stack_mark_pointers s2) = live s2 + 1 \<longrightarrow> list_all point_ok evs"
    and b: "(Back (last (stack_mark_pointers s2)), live s2 + 1, length (stack_mark_pointers s2)) \<in> set evs"
    by auto
  define evs' where "evs' = (Push own, live s, length (stack_mark_pointers s) + 1) # evs @
                            [(Pop, live s, length (stack_mark_pointers s))]"
  have "LeakByte_trial_sa E sc s =
          Inr (sc1, s\<lparr>cache := c', trace := trace s @ (OracleFlushed, live s, length (stack_mark_pointers s)) # evs'\<rparr>)"
    using r
    by (simp add: LeakByte_trial_sa_def fo s2_def s1_def own_def push_back_def pop_back_def
        note_event_def evs'_def)
  moreover have "list_all (\<lambda>p. frame_event (fst p)) evs'"
    using e by (simp add: evs'_def)
  moreover have "calls_of kRecursionDepth evs' = 1"
    using k by (simp add: evs'_def calls_of_def)
  moreover have "stack_mark_pointers s = [] \<and> live s = 0 \<longrightarrow> list_all point_ok evs'"
    using p by (simp add: evs'_def s2)
  moreover have "(Back (frame_mark E (live s)), live s + 1, length (stack_mark_pointers s) + 1) \<in> set evs'"
    using b by (simp add: evs'_def s2 own_def s1_def)
  ultimately show ?thesis using fo by auto
qed

lemma LeakByte_trial_ca_ok:
  assumes "frames_near E"
  shows "\<exists>c' evs. LeakByte_trial_ca E sc s =
             Some (Inr (fst (FlushOracle E (sc, cache s)),
                  s\<lparr>cache := c', trace := trace s @ (OracleFlushed, live s, length (stack_mark_pointers s)) # evs\<rparr>)) \<and>
           list_all (\<lambda>p. frame_event (fst p)) evs \<and>
           calls_of kRecursionDepth evs = 1 \<and>
           (stack_mark_pointers s = [] \<and> live s = 0 \<longrightarrow> list_all point_ok evs) \<and>
           (Back (frame_mark E (live s)), live s + 1, length (stack_mark_pointers s) + 1) \<in> set evs"
proof -
  obtain sc1 c1 where fo: "FlushOracle E (sc, cache s) = (sc1, c1)" by (cases "FlushOracle E (sc, cache s)")
  define s1 where "s1 = note_event OracleFlushed (s\<lparr>cache := c1\<rparr>)"
  define own where "own = frame_mark E (live s1)"
  define s2 where "s2 = push_back own s1"
  have own: "own = frame_mark E (live s)" by (simp add: own_def s1_def)
  have s2: "s2 = s\<lparr>stack_mark_pointers := stack_mark_pointers s @ [own], cache := c1,
                   trace := trace s @ [(OracleFlushed, live s, length (stack_mark_pointers s)),
                                       (Push own, live s, length (stack_mark_pointers s) + 1)]\<rparr>"
    by (simp add: s2_def s1_def push_back_def note_event_def)
  have "stack_mark_pointers s2 \<noteq> []"
    "last (stack_mark_pointers s2) - frame_mark E (live s2 + 1) \<le> 2 ^ 31 - kCacheLineSize"
    using assms by (simp_all add: s2 own frames_near_def)
  from ReturnsTrue_ca_ok [OF this(1) assms this(2), of kRecursionDepth] obtain c' evs where
    r: "ReturnsTrue_ca E kRecursionDepth s2 = Some (Inr (True, s2\<lparr>cache := c', trace := trace s2 @ evs\<rparr>))"
    and e: "list_all (\<lambda>p. frame_event (fst p)) evs"
    and k: "calls_of kRecursionDepth evs = 1"
    and p: "length (stack_mark_pointers s2) = live s2 + 1 \<longrightarrow> list_all point_ok evs"
    and b: "(Back (last (stack_mark_pointers s2)), live s2 + 1, length (stack_mark_pointers s2)) \<in> set evs"
    by auto
  define evs' where "evs' = (Push own, live s, length (stack_mark_pointers s) + 1) # evs @
                            [(Pop, live s, length (stack_mark_pointers s))]"
  have "LeakByte_trial_ca E sc s =
          Some (Inr (sc1, s\<lparr>cache := c', trace := trace s @ (OracleFlushed, live s, length (stack_mark_pointers s)) # evs'\<rparr>))"
    using r
    by (simp add: LeakByte_trial_ca_def fo s2_def s1_def own_def push_back_def pop_back_def
        note_event_def evs'_def)
  moreover have "list_all (\<lambda>p. frame_event (fst p)) evs'"
    using e by (simp add: evs'_def)
  moreover have "calls_of kRecursionDepth evs' = 1"
    using k by (simp add: evs'_def calls_of_def)
  moreover have "stack_mark_pointers s = [] \<and> live s = 0 \<longrightarrow> list_all point_ok evs'"
    using p by (simp add: evs'_def s2)
  moreover have "(Back (frame_mark E (live s)), live s + 1, length (stack_mark_pointers s) + 1) \<in> set evs'"
    using b by (simp add: evs'_def s2 own_def s1_def)
  ultimately show ?thesis using fo by auto
qed

lemma decide_eq:
  assumes "AddHitAndRecomputeScores E (sc, cache s) = ((d, g), sc1, c1)"
  shows "decide E run sc s =
     (if d then Inr (Inr (g, s\<lparr>cache := c1, trace := trace s @ [(HitAdded d g, live s, length (stack_mark_pointers s))]\<rparr>))
      else if run > 100000 then
        Inl (ConvergenceExit run,
             s\<lparr>cache := c1, cerr := cerr s @ ''Does not converge '' @ [g, CHR 0x0A],
               trace := trace s @ [(HitAdded d g, live s, length (stack_mark_pointers s))]\<rparr>)
      else Inr (Inl (sc1, s\<lparr>cache := c1, trace := trace s @ [(HitAdded d g, live s, length (stack_mark_pointers s))]\<rparr>)))"
  using assms by (simp add: decide_def note_event_def)

lemma hits_simps [simp]:
  "hits [] = 0" "hits (xs @ ys) = hits xs + hits ys"
  "hits ((e, d, n) # xs) = (if is_HitAdded e then 1 else 0) + hits xs"
  by (simp_all add: hits_def)


lemma LeakByte_loop_sa_post:
  assumes "false_value s = False" "run \<le> 100001"
  shows "loop_post E run s (LeakByte_loop_sa E run sc s)"
  using assms
proof (induction E run sc s rule: LeakByte_loop_sa.induct)
  case (1 E run sc s)
  define d0 where "d0 = live s"
  define n0 where "n0 = length (stack_mark_pointers s)"
  from LeakByte_trial_sa_ok [OF "1.prems"(1), of E sc] obtain sc1 c1 evs1 where
    t: "LeakByte_trial_sa E sc s = Inr (sc1, s\<lparr>cache := c1, trace := trace s @ (OracleFlushed, d0, n0) # evs1\<rparr>)"
    and e1: "list_all (\<lambda>p. frame_event (fst p)) evs1"
    and p1: "stack_mark_pointers s = [] \<and> live s = 0 \<longrightarrow> list_all point_ok evs1"
    unfolding d0_def n0_def by blast
  define s1 where "s1 = s\<lparr>cache := c1, trace := trace s @ (OracleFlushed, d0, n0) # evs1\<rparr>"
  obtain d g sc2 c2 where a: "AddHitAndRecomputeScores E (sc1, cache s1) = ((d, g), sc2, c2)"
    by (metis surj_pair)
  define s2 where "s2 = s1\<lparr>cache := c2, trace := trace s1 @ [(HitAdded d g, live s1, length (stack_mark_pointers s1))]\<rparr>"
  define evs where "evs = (OracleFlushed, d0, n0) # evs1 @ [(HitAdded d g, d0, n0)]"
  have s2: "s2 = s\<lparr>cache := c2, trace := trace s @ evs\<rparr>"
    by (simp add: s2_def s1_def evs_def d0_def n0_def)
  note fp = frame_event_props [OF e1]
  have evs: "stack_mark_pointers s = [] \<and> live s = 0 \<longrightarrow> list_all point_ok evs"
    "list_all (\<lambda>p. \<not> is_ForceRead (fst p)) evs" "hits evs = 1"
    using p1 fp by (simp_all add: evs_def d0_def n0_def)
  note dec = decide_eq [OF a, of run, folded s2_def]
  show ?case
  proof (cases d)
    case True
    have "LeakByte_loop_sa E run sc s = Inr (g, s2)"
      using True by (subst LeakByte_loop_sa.simps) (simp add: t s1_def [symmetric] dec)
    moreover have "\<exists>x. fst (fst (AddHitAndRecomputeScores E x))"
      using a True by (intro exI [of _ "(sc1, cache s1)"]) simp
    then have "loop_post E run s (Inr (g, s2))"
      unfolding loop_post_def using evs
      by (intro exI [of _ evs]) (simp add: final_state_def s2)
    ultimately show ?thesis by simp
  next
    case False
    show ?thesis
    proof (cases "run > 100000")
      case True
      with "1.prems"(2) have run: "run = 100001" by simp
      have "LeakByte_loop_sa E run sc s =
              Inl (ConvergenceExit run, s2\<lparr>cerr := cerr s2 @ ''Does not converge '' @ [g, CHR 0x0A]\<rparr>)"
        using True \<open>\<not> d\<close>
        by (subst LeakByte_loop_sa.simps) (simp add: t s1_def [symmetric] dec s2_def)
      moreover have "\<exists>evs' g' dd nn x. evs = evs' @ [(HitAdded False g', dd, nn)] \<and>
          g' = snd (fst (AddHitAndRecomputeScores E x)) \<and>
          cerr s @ ''Does not converge '' @ [g, CHR 0x0A] = cerr s @ ''Does not converge '' @ [g', CHR 0x0A]"
        using a \<open>\<not> d\<close>
        by (intro exI [of _ "(OracleFlushed, d0, n0) # evs1"] exI [of _ g] exI [of _ d0] exI [of _ n0]
              exI [of _ "(sc1, cache s1)"]) (simp add: evs_def)
      then have "loop_post E run s
          (Inl (ConvergenceExit run, s2\<lparr>cerr := cerr s2 @ ''Does not converge '' @ [g, CHR 0x0A]\<rparr>))"
        unfolding loop_post_def using evs run
        by (intro exI [of _ evs]) (simp add: final_state_def s2)
      ultimately show ?thesis by simp
    next
      case F2: False
      have step: "LeakByte_loop_sa E run sc s = LeakByte_loop_sa E (run + 1) sc2 s2"
        using F2 \<open>\<not> d\<close>
        by (subst LeakByte_loop_sa.simps) (simp add: t s1_def [symmetric] dec)
      have d2: "decide E run sc1 s1 = Inr (Inl (sc2, s2))"
        using F2 \<open>\<not> d\<close> by (simp add: dec)
      have "loop_post E (run + 1) s2 (LeakByte_loop_sa E (run + 1) sc2 s2)"
        using "1.prems" F2
        by (intro "1.IH" [OF t [folded s1_def] refl d2 refl refl]) (simp_all add: s2)
      then obtain evs2 where
        f: "final_state (LeakByte_loop_sa E (run + 1) sc2 s2) =
              s2\<lparr>cache := cache (final_state (LeakByte_loop_sa E (run + 1) sc2 s2)),
                 cerr := cerr (final_state (LeakByte_loop_sa E (run + 1) sc2 s2)),
                 trace := trace s2 @ evs2\<rparr>"
        and g2: "stack_mark_pointers s2 = [] \<and> live s2 = 0 \<longrightarrow> list_all point_ok evs2"
          "list_all (\<lambda>p. \<not> is_ForceRead (fst p)) evs2"
        and c2: "(case LeakByte_loop_sa E (run + 1) sc2 s2 of
           Inr (c, s') \<Rightarrow> cerr s' = cerr s2 \<and> 0 < hits evs2
         | Inl (e, s') \<Rightarrow> e = ConvergenceExit 100001 \<and> hits evs2 = nat (100002 - (run + 1)) \<and>
             (\<exists>evs' g d n x. evs2 = evs' @ [(HitAdded False g, d, n)] \<and>
                 g = snd (fst (AddHitAndRecomputeScores E x)) \<and>
                 cerr s' = cerr s2 @ ''Does not converge '' @ [g, CHR 0x0A]))"
        and n2: "(\<forall>x. \<not> fst (fst (AddHitAndRecomputeScores E x))) \<longrightarrow> isl (LeakByte_loop_sa E (run + 1) sc2 s2)"
        unfolding loop_post_def by blast
      have "loop_post E run s (LeakByte_loop_sa E (run + 1) sc2 s2)"
        unfolding loop_post_def
      proof (intro exI [of _ "evs @ evs2"] conjI)
        show "final_state (LeakByte_loop_sa E (run + 1) sc2 s2) =
                s\<lparr>cache := cache (final_state (LeakByte_loop_sa E (run + 1) sc2 s2)),
                  cerr := cerr (final_state (LeakByte_loop_sa E (run + 1) sc2 s2)),
                  trace := trace s @ evs @ evs2\<rparr>"
          by (subst f) (simp add: s2)
        show "stack_mark_pointers s = [] \<and> live s = 0 \<longrightarrow> list_all point_ok (evs @ evs2)"
          using evs g2 by (simp add: s2)
        show "list_all (\<lambda>p. \<not> is_ForceRead (fst p)) (evs @ evs2)" using evs g2 by simp
        show "case LeakByte_loop_sa E (run + 1) sc2 s2 of
           Inr (c, s') \<Rightarrow> cerr s' = cerr s \<and> 0 < hits (evs @ evs2)
         | Inl (e, s') \<Rightarrow> e = ConvergenceExit 100001 \<and> hits (evs @ evs2) = nat (100002 - run) \<and>
             (\<exists>evs' g d n x. evs @ evs2 = evs' @ [(HitAdded False g, d, n)] \<and>
                 g = snd (fst (AddHitAndRecomputeScores E x)) \<and>
                 cerr s' = cerr s @ ''Does not converge '' @ [g, CHR 0x0A])"
        proof (cases "LeakByte_loop_sa E (run + 1) sc2 s2")
          case (Inr p)
          with c2 evs(3) show ?thesis by (auto simp: s2)
        next
          case (Inl p)
          obtain e s' where p: "p = (e, s')" by (cases p)
          from c2 Inl p obtain evs' g' dd nn x where
            "e = ConvergenceExit 100001" "hits evs2 = nat (100002 - (run + 1))"
            "evs2 = evs' @ [(HitAdded False g', dd, nn)]"
            "g' = snd (fst (AddHitAndRecomputeScores E x))"
            "cerr s' = cerr s2 @ ''Does not converge '' @ [g', CHR 0x0A]"
            by auto
          then have "e = ConvergenceExit 100001" "hits (evs @ evs2) = nat (100002 - run)"
            "evs @ evs2 = (evs @ evs') @ [(HitAdded False g', dd, nn)]"
            "g' = snd (fst (AddHitAndRecomputeScores E x))"
            "cerr s' = cerr s @ ''Does not converge '' @ [g', CHR 0x0A]"
            using evs(3) F2 by (simp_all add: s2)
          then show ?thesis unfolding Inl p sum.case prod.case by blast
        qed
        show "(\<forall>x. \<not> fst (fst (AddHitAndRecomputeScores E x))) \<longrightarrow> isl (LeakByte_loop_sa E (run + 1) sc2 s2)"
          by (rule n2)
      qed
      with step show ?thesis by simp
    qed
  qed
qed

lemma LeakByte_loop_ca_post:
  assumes "frames_near E" "run \<le> 100001"
  shows "\<exists>r. LeakByte_loop_ca E run sc s = Some r \<and> loop_post E run s r"
  using assms
proof (induction E run sc s rule: LeakByte_loop_ca.induct)
  case (1 E run sc s)
  define d0 where "d0 = live s"
  define n0 where "n0 = length (stack_mark_pointers s)"
  from LeakByte_trial_ca_ok [OF "1.prems"(1), of sc s] obtain sc1 c1 evs1 where
    t: "LeakByte_trial_ca E sc s = Some (Inr (sc1, s\<lparr>cache := c1, trace := trace s @ (OracleFlushed, d0, n0) # evs1\<rparr>))"
    and e1: "list_all (\<lambda>p. frame_event (fst p)) evs1"
    and p1: "stack_mark_pointers s = [] \<and> live s = 0 \<longrightarrow> list_all point_ok evs1"
    unfolding d0_def n0_def by blast
  define s1 where "s1 = s\<lparr>cache := c1, trace := trace s @ (OracleFlushed, d0, n0) # evs1\<rparr>"
  obtain d g sc2 c2 where a: "AddHitAndRecomputeScores E (sc1, cache s1) = ((d, g), sc2, c2)"
    by (metis surj_pair)
  define s2 where "s2 = s1\<lparr>cache := c2, trace := trace s1 @ [(HitAdded d g, live s1, length (stack_mark_pointers s1))]\<rparr>"
  define evs where "evs = (OracleFlushed, d0, n0) # evs1 @ [(HitAdded d g, d0, n0)]"
  have s2: "s2 = s\<lparr>cache := c2, trace := trace s @ evs\<rparr>"
    by (simp add: s2_def s1_def evs_def d0_def n0_def)
  note fp = frame_event_props [OF e1]
  have evs: "stack_mark_pointers s = [] \<and> live s = 0 \<longrightarrow> list_all point_ok evs"
    "list_all (\<lambda>p. \<not> is_ForceRead (fst p)) evs" "hits evs = 1"
    using p1 fp by (simp_all add: evs_def d0_def n0_def)
  note dec = decide_eq [OF a, of run, folded s2_def]
  show ?case
  proof (cases d)
    case True
    have "LeakByte_loop_ca E run sc s = Some (Inr (g, s2))"
      using True by (subst LeakByte_loop_ca.simps) (simp add: t s1_def [symmetric] dec)
    moreover have "\<exists>x. fst (fst (AddHitAndRecomputeScores E x))"
      using a True by (intro exI [of _ "(sc1, cache s1)"]) simp
    then have "loop_post E run s (Inr (g, s2))"
      unfolding loop_post_def using evs
      by (intro exI [of _ evs]) (simp add: final_state_def s2)
    ultimately show ?thesis by simp
  next
    case False
    show ?thesis
    proof (cases "run > 100000")
      case True
      with "1.prems"(2) have run: "run = 100001" by simp
      have "LeakByte_loop_ca E run sc s =
              Some (Inl (ConvergenceExit run, s2\<lparr>cerr := cerr s2 @ ''Does not converge '' @ [g, CHR 0x0A]\<rparr>))"
        using True \<open>\<not> d\<close>
        by (subst LeakByte_loop_ca.simps) (simp add: t s1_def [symmetric] dec s2_def)
      moreover have "\<exists>evs' g' dd nn x. evs = evs' @ [(HitAdded False g', dd, nn)] \<and>
          g' = snd (fst (AddHitAndRecomputeScores E x)) \<and>
          cerr s @ ''Does not converge '' @ [g, CHR 0x0A] = cerr s @ ''Does not converge '' @ [g', CHR 0x0A]"
        using a \<open>\<not> d\<close>
        by (intro exI [of _ "(OracleFlushed, d0, n0) # evs1"] exI [of _ g] exI [of _ d0] exI [of _ n0]
              exI [of _ "(sc1, cache s1)"]) (simp add: evs_def)
      then have "loop_post E run s
          (Inl (ConvergenceExit run, s2\<lparr>cerr := cerr s2 @ ''Does not converge '' @ [g, CHR 0x0A]\<rparr>))"
        unfolding loop_post_def using evs run
        by (intro exI [of _ evs]) (simp add: final_state_def s2)
      ultimately show ?thesis by simp
    next
      case F2: False
      have step: "LeakByte_loop_ca E run sc s = LeakByte_loop_ca E (run + 1) sc2 s2"
        using F2 \<open>\<not> d\<close>
        by (subst LeakByte_loop_ca.simps) (simp add: t s1_def [symmetric] dec)
      have d2: "decide E run sc1 s1 = Inr (Inl (sc2, s2))"
        using F2 \<open>\<not> d\<close> by (simp add: dec)
      have "\<exists>r. LeakByte_loop_ca E (run + 1) sc2 s2 = Some r \<and> loop_post E (run + 1) s2 r"
        using "1.prems" F2
        by (intro "1.IH" [OF t [folded s1_def] refl refl d2 refl refl]) (simp_all add: s2)
      then obtain r where r: "LeakByte_loop_ca E (run + 1) sc2 s2 = Some r"
        and "loop_post E (run + 1) s2 r"
        by blast
      then obtain evs2 where
        f: "final_state r =
              s2\<lparr>cache := cache (final_state r),
                 cerr := cerr (final_state r),
                 trace := trace s2 @ evs2\<rparr>"
        and g2: "stack_mark_pointers s2 = [] \<and> live s2 = 0 \<longrightarrow> list_all point_ok evs2"
          "list_all (\<lambda>p. \<not> is_ForceRead (fst p)) evs2"
        and c2: "(case r of
           Inr (c, s') \<Rightarrow> cerr s' = cerr s2 \<and> 0 < hits evs2
         | Inl (e, s') \<Rightarrow> e = ConvergenceExit 100001 \<and> hits evs2 = nat (100002 - (run + 1)) \<and>
             (\<exists>evs' g d n x. evs2 = evs' @ [(HitAdded False g, d, n)] \<and>
                 g = snd (fst (AddHitAndRecomputeScores E x)) \<and>
                 cerr s' = cerr s2 @ ''Does not converge '' @ [g, CHR 0x0A]))"
        and n2: "(\<forall>x. \<not> fst (fst (AddHitAndRecomputeScores E x))) \<longrightarrow> isl r"
        unfolding loop_post_def by blast
      have "loop_post E run s r"
        unfolding loop_post_def
      proof (intro exI [of _ "evs @ evs2"] conjI)
        show "final_state r =
                s\<lparr>cache := cache (final_state r),
                  cerr := cerr (final_state r),
                  trace := trace s @ evs @ evs2\<rparr>"
          by (subst f) (simp add: s2)
        show "stack_mark_pointers s = [] \<and> live s = 0 \<longrightarrow> list_all point_ok (evs @ evs2)"
          using evs g2 by (simp add: s2)
        show "list_all (\<lambda>p. \<not> is_ForceRead (fst p)) (evs @ evs2)" using evs g2 by simp
        show "case r of
           Inr (c, s') \<Rightarrow> cerr s' = cerr s \<and> 0 < hits (evs @ evs2)
         | Inl (e, s') \<Rightarrow> e = ConvergenceExit 100001 \<and> hits (evs @ evs2) = nat (100002 - run) \<and>
             (\<exists>evs' g d n x. evs @ evs2 = evs' @ [(HitAdded False g, d, n)] \<and>
                 g = snd (fst (AddHitAndRecomputeScores E x)) \<and>
                 cerr s' = cerr s @ ''Does not converge '' @ [g, CHR 0x0A])"
        proof (cases r)
          case (Inr p)
          with c2 evs(3) show ?thesis by (auto simp: s2)
        next
          case (Inl p)
          obtain e s' where p: "p = (e, s')" by (cases p)
          from c2 Inl p obtain evs' g' dd nn x where
            "e = ConvergenceExit 100001" "hits evs2 = nat (100002 - (run + 1))"
            "evs2 = evs' @ [(HitAdded False g', dd, nn)]"
            "g' = snd (fst (AddHitAndRecomputeScores E x))"
            "cerr s' = cerr s2 @ ''Does not converge '' @ [g', CHR 0x0A]"
            by auto
          then have "e = ConvergenceExit 100001" "hits (evs @ evs2) = nat (100002 - run)"
            "evs @ evs2 = (evs @ evs') @ [(HitAdded False g', dd, nn)]"
            "g' = snd (fst (AddHitAndRecomputeScores E x))"
            "cerr s' = cerr s @ ''Does not converge '' @ [g', CHR 0x0A]"
            using evs(3) F2 by (simp_all add: s2)
          then show ?thesis unfolding Inl p sum.case prod.case by blast
        qed
        show "(\<forall>x. \<not> fst (fst (AddHitAndRecomputeScores E x))) \<longrightarrow> isl r"
          by (rule n2)
      qed
      with step r show ?thesis by simp
    qed
  qed
qed

lemma count_events_ext:
  assumes "trace s' = trace s @ evs"
  shows "count_events P s' = count_events P s + length (filter (\<lambda>p. P (fst p)) evs)"
proof -
  have eq: "(\<lambda>(e, d, n). P e) = (\<lambda>p. P (fst p))" by (auto simp: fun_eq_iff)
  show ?thesis unfolding count_events_def assms eq by simp
qed

lemma LeakByte_sa_post:
  assumes "false_value s = False"
  shows "loop_post E 0 (s\<lparr>oracle_ptr := GetOracle E (sidechannel_new E)\<rparr>) (LeakByte_sa E s)"
  unfolding LeakByte_sa_def Let_def using assms by (intro LeakByte_loop_sa_post) simp_all

lemma LeakByte_ca_post:
  assumes "frames_near E"
  shows "\<exists>r. LeakByte_ca E s = Some r \<and> loop_post E 0 (s\<lparr>oracle_ptr := GetOracle E (sidechannel_new E)\<rparr>) r"
  unfolding LeakByte_ca_def Let_def using assms by (intro LeakByte_loop_ca_post) simp_all

lemma last_answer_snoc [simp]:
  "last_answer (evs @ [(HitAdded b g, d, n)]) = Some (b, g)"
  by (induction evs rule: last_answer.induct) simp_all

lemma loop_post_never:
  assumes "loop_post E 0 s0 r" "\<forall>x. \<not> fst (fst (AddHitAndRecomputeScores E x))"
  shows "\<exists>s' g. r = Inl (ConvergenceExit 100001, s') \<and> trials s' = trials s0 + 100002 \<and>
           last_decision s' = Some (False, g) \<and>
           (\<exists>x. g = snd (fst (AddHitAndRecomputeScores E x))) \<and>
           cerr s' = cerr s0 @ ''Does not converge '' @ [g, CHR 0x0A] \<and>
           cout s' = cout s0 \<and> current_offset s' = current_offset s0"
proof -
  from assms obtain evs where
    f: "final_state r = s0\<lparr>cache := cache (final_state r), cerr := cerr (final_state r), trace := trace s0 @ evs\<rparr>"
    and c: "case r of
           Inr (c, s') \<Rightarrow> cerr s' = cerr s0 \<and> 0 < hits evs
         | Inl (e, s') \<Rightarrow> e = ConvergenceExit 100001 \<and> hits evs = nat (100002 - 0) \<and>
             (\<exists>evs' g d n x. evs = evs' @ [(HitAdded False g, d, n)] \<and>
                 g = snd (fst (AddHitAndRecomputeScores E x)) \<and>
                 cerr s' = cerr s0 @ ''Does not converge '' @ [g, CHR 0x0A])"
    and i: "isl r"
    unfolding loop_post_def by blast
  from i obtain e s' where r: "r = Inl (e, s')" by (cases r) auto
  from c r obtain evs' g d n x where e: "e = ConvergenceExit 100001" and h: "hits evs = 100002"
    and l: "evs = evs' @ [(HitAdded False g, d, n)]"
    and x: "g = snd (fst (AddHitAndRecomputeScores E x))"
    and m: "cerr s' = cerr s0 @ ''Does not converge '' @ [g, CHR 0x0A]"
    by auto
  from f r have s': "s' = s0\<lparr>cache := cache s', cerr := cerr s', trace := trace s0 @ evs\<rparr>"
    by (simp add: final_state_def)
  have t: "trace s' = trace s0 @ evs" by (subst s') simp
  from count_events_ext [OF this, of is_HitAdded] h
  have "trials s' = trials s0 + 100002" by (simp add: trials_def hits_def)
  moreover have "last_decision s' = Some (False, g)"
    unfolding last_decision_def t l by (simp del: append_assoc add: append_assoc [symmetric])
  moreover have "cout s' = cout s0" "current_offset s' = current_offset s0"
    by (subst s', simp)+
  ultimately show ?thesis using r e m x by blast
qed

text \<open>
  C1, as amended. When the side channel never decides, \<^verbatim>\<open>LeakByte\<close> exits with the
  convergence failure exactly when its loop variable \<^verbatim>\<open>run\<close>, which is 0 in the first
  trial and is tested before it is incremented, is 100001: after exactly 100002
  trials, not one fewer and not one more.
\<close>

theorem LeakByte_never_decides:
  assumes "\<forall>x. \<not> fst (fst (AddHitAndRecomputeScores E x))"
  shows "(false_value s = False \<longrightarrow>
            (\<exists>s'. LeakByte_sa E s = Inl (ConvergenceExit 100001, s') \<and> trials s' = trials s + 100002)) \<and>
         (frames_near E \<longrightarrow>
            (\<exists>s'. LeakByte_ca E s = Some (Inl (ConvergenceExit 100001, s')) \<and> trials s' = trials s + 100002))"
proof (intro conjI impI)
  assume "false_value s = False"
  from loop_post_never [OF LeakByte_sa_post [OF this] assms]
  show "\<exists>s'. LeakByte_sa E s = Inl (ConvergenceExit 100001, s') \<and> trials s' = trials s + 100002"
    by (auto simp: trials_def)
next
  assume "frames_near E"
  from LeakByte_ca_post [OF this, of s] obtain r where
    "LeakByte_ca E s = Some r" "loop_post E 0 (s\<lparr>oracle_ptr := GetOracle E (sidechannel_new E)\<rparr>) r"
    by blast
  with loop_post_never [OF this(2) assms]
  show "\<exists>s'. LeakByte_ca E s = Some (Inl (ConvergenceExit 100001, s')) \<and> trials s' = trials s + 100002"
    by (auto simp: trials_def)
qed

lemma never_ex: "\<forall>x. \<not> fst (fst (AddHitAndRecomputeScores (env_ex False) x))"
  by (simp add: env_ex_def split: prod.splits)

theorem LeakByte_never_decides_witness:
  "(\<forall>x. \<not> fst (fst (AddHitAndRecomputeScores (env_ex False) x))) \<and>
   false_value state_ex = False \<and> frames_near (env_ex False) \<and>
   (\<exists>s'. LeakByte_sa (env_ex False) state_ex = Inl (ConvergenceExit 100001, s') \<and>
         trials s' = trials state_ex + 100002) \<and>
   (\<exists>s'. LeakByte_ca (env_ex False) state_ex = Some (Inl (ConvergenceExit 100001, s')) \<and>
         trials s' = trials state_ex + 100002)"
  using LeakByte_never_decides [OF never_ex, of state_ex] never_ex frames_near_ex [of False]
  by (simp add: state_ex_def)

text \<open>
  C1 as stated fails: on a side channel that never decides the exit comes after
  \<open>ceiling + 2\<close> trials, not after \<open>ceiling + 1\<close>.
\<close>

theorem LeakByte_trials_counterexample:
  "isl (LeakByte_sa (env_ex False) state_ex) \<and>
   trials (final_state (LeakByte_sa (env_ex False) state_ex)) = 100000 + 2 \<and>
   trials (final_state (LeakByte_sa (env_ex False) state_ex)) \<noteq> 100000 + 1"
proof -
  have "false_value state_ex = False" by (simp add: state_ex_def)
  from loop_post_never [OF LeakByte_sa_post [OF this] never_ex]
  obtain s' where "LeakByte_sa (env_ex False) state_ex = Inl (ConvergenceExit 100001, s')"
    "trials s' = trials (state_ex\<lparr>oracle_ptr := GetOracle (env_ex False) (sidechannel_new (env_ex False))\<rparr>) + 100002"
    by blast
  moreover have "trials (state_ex\<lparr>oracle_ptr := GetOracle (env_ex False) (sidechannel_new (env_ex False))\<rparr>) = 0"
    by (simp add: trials_def state_ex_def count_events_def)
  ultimately show ?thesis by (simp add: final_state_def)
qed

lemma one_trialI:
  assumes "trace s' = trace s @ (OracleFlushed, d, n) # evs @ [(HitAdded b g, d', n')]"
    and "list_all (\<lambda>p. frame_event (fst p)) evs" "calls_of kRecursionDepth evs = 1"
  shows "one_trial s s'"
proof -
  note fp = frame_event_props [OF assms(2)]
  have "length (filter (\<lambda>p. fst p = OracleFlushed) ((OracleFlushed, d, n) # evs @ [(HitAdded b g, d', n')])) = 1"
    using fp(3) by (simp add: oracle_flushes_def)
  moreover have "length (filter (\<lambda>p. is_HitAdded (fst p)) ((OracleFlushed, d, n) # evs @ [(HitAdded b g, d', n')])) = 1"
    using fp(2) by (simp add: hits_def)
  moreover have "length (filter (\<lambda>p. fst p = Call kRecursionDepth) ((OracleFlushed, d, n) # evs @ [(HitAdded b g, d', n')])) = 1"
    using assms(3) by (simp add: calls_of_def)
  ultimately show ?thesis
    unfolding one_trial_def trials_def
    using count_events_ext [OF assms(1), of "\<lambda>e. e = OracleFlushed"]
      count_events_ext [OF assms(1), of is_HitAdded]
      count_events_ext [OF assms(1), of "\<lambda>e. e = Call kRecursionDepth"]
    by simp
qed

lemma LeakByte_sa_first:
  assumes "false_value s = False" "first_query_sa E s = Some q"
    and "fst (AddHitAndRecomputeScores E q) = (True, b)"
  shows "\<exists>s'. LeakByte_sa E s = Inr (b, s') \<and> one_trial s s'"
proof -
  define sc where "sc = sidechannel_new E"
  define s0 where "s0 = s\<lparr>oracle_ptr := GetOracle E sc\<rparr>"
  have "false_value s0 = False" using assms(1) by (simp add: s0_def)
  from LeakByte_trial_sa_ok [OF this, of E sc] obtain sc1 c1 evs where
    t: "LeakByte_trial_sa E sc s0 =
          Inr (sc1, s0\<lparr>cache := c1, trace := trace s0 @ (OracleFlushed, live s0, length (stack_mark_pointers s0)) # evs\<rparr>)"
    and e: "list_all (\<lambda>p. frame_event (fst p)) evs"
    and k: "calls_of kRecursionDepth evs = 1"
    by blast
  define s1 where "s1 = s0\<lparr>cache := c1, trace := trace s0 @ (OracleFlushed, live s0, length (stack_mark_pointers s0)) # evs\<rparr>"
  have q: "q = (sc1, cache s1)"
    using assms(2) t by (simp add: first_query_sa_def sc_def [symmetric] s0_def [symmetric] s1_def)
  obtain sc2 c2 where a: "AddHitAndRecomputeScores E (sc1, cache s1) = ((True, b), sc2, c2)"
    using assms(3) q by (cases "AddHitAndRecomputeScores E (sc1, cache s1)") auto
  define s2 where "s2 = s1\<lparr>cache := c2, trace := trace s1 @ [(HitAdded True b, live s1, length (stack_mark_pointers s1))]\<rparr>"
  have "LeakByte_sa E s = Inr (b, s2)"
    unfolding LeakByte_sa_def Let_def sc_def [symmetric] s0_def [symmetric]
    by (subst LeakByte_loop_sa.simps) (simp add: t s1_def [symmetric] decide_eq [OF a] s2_def)
  moreover have "trace s2 = trace s @ (OracleFlushed, live s0, length (stack_mark_pointers s0)) # evs @
                    [(HitAdded True b, live s1, length (stack_mark_pointers s1))]"
    by (simp add: s2_def s1_def s0_def)
  from one_trialI [OF this e k] have "one_trial s s2" .
  ultimately show ?thesis by blast
qed

lemma LeakByte_ca_first:
  assumes "frames_near E" "first_query_ca E s = Some q"
    and "fst (AddHitAndRecomputeScores E q) = (True, b)"
  shows "\<exists>s'. LeakByte_ca E s = Some (Inr (b, s')) \<and> one_trial s s'"
proof -
  define sc where "sc = sidechannel_new E"
  define s0 where "s0 = s\<lparr>oracle_ptr := GetOracle E sc\<rparr>"
  from LeakByte_trial_ca_ok [OF assms(1), of sc s0] obtain sc1 c1 evs where
    t: "LeakByte_trial_ca E sc s0 =
          Some (Inr (sc1, s0\<lparr>cache := c1, trace := trace s0 @ (OracleFlushed, live s0, length (stack_mark_pointers s0)) # evs\<rparr>))"
    and e: "list_all (\<lambda>p. frame_event (fst p)) evs"
    and k: "calls_of kRecursionDepth evs = 1"
    by blast
  define s1 where "s1 = s0\<lparr>cache := c1, trace := trace s0 @ (OracleFlushed, live s0, length (stack_mark_pointers s0)) # evs\<rparr>"
  have q: "q = (sc1, cache s1)"
    using assms(2) t by (simp add: first_query_ca_def sc_def [symmetric] s0_def [symmetric] s1_def)
  obtain sc2 c2 where a: "AddHitAndRecomputeScores E (sc1, cache s1) = ((True, b), sc2, c2)"
    using assms(3) q by (cases "AddHitAndRecomputeScores E (sc1, cache s1)") auto
  define s2 where "s2 = s1\<lparr>cache := c2, trace := trace s1 @ [(HitAdded True b, live s1, length (stack_mark_pointers s1))]\<rparr>"
  have "LeakByte_ca E s = Some (Inr (b, s2))"
    unfolding LeakByte_ca_def Let_def sc_def [symmetric] s0_def [symmetric]
    by (subst LeakByte_loop_ca.simps) (simp add: t s1_def [symmetric] decide_eq [OF a] s2_def)
  moreover have "trace s2 = trace s @ (OracleFlushed, live s0, length (stack_mark_pointers s0)) # evs @
                    [(HitAdded True b, live s1, length (stack_mark_pointers s1))]"
    by (simp add: s2_def s1_def s0_def)
  from one_trialI [OF this e k] have "one_trial s s2" .
  ultimately show ?thesis by blast
qed

lemma first_query_sa_defined:
  "false_value s = False \<Longrightarrow> \<exists>q. first_query_sa E s = Some q"
  using LeakByte_trial_sa_ok [of "s\<lparr>oracle_ptr := GetOracle E (sidechannel_new E)\<rparr>" E "sidechannel_new E"]
  by (auto simp: first_query_sa_def)

lemma first_query_ca_defined:
  "frames_near E \<Longrightarrow> \<exists>q. first_query_ca E s = Some q"
  using LeakByte_trial_ca_ok [of E "sidechannel_new E" "s\<lparr>oracle_ptr := GetOracle E (sidechannel_new E)\<rparr>"]
  by (auto simp: first_query_ca_def)

text \<open>
  C9. For every offset (every value of \<^verbatim>\<open>current_offset\<close>) and every byte \<open>b\<close>: when the
  first call of \<^verbatim>\<open>AddHitAndRecomputeScores\<close> answers \<open>(true, b)\<close>, \<^verbatim>\<open>LeakByte\<close>
  returns \<open>b\<close> after exactly one flush of the oracle, one call
  \<^verbatim>\<open>ReturnsTrue(kRecursionDepth)\<close> and one decision.
\<close>

theorem LeakByte_decides_at_once:
  "(false_value s = False \<and> first_query_sa E s = Some q \<and>
    fst (AddHitAndRecomputeScores E q) = (True, b) \<longrightarrow>
      (\<exists>s'. LeakByte_sa E s = Inr (b, s') \<and> one_trial s s')) \<and>
   (frames_near E \<and> first_query_ca E s = Some q' \<and>
    fst (AddHitAndRecomputeScores E q') = (True, b) \<longrightarrow>
      (\<exists>s'. LeakByte_ca E s = Some (Inr (b, s')) \<and> one_trial s s'))"
  using LeakByte_sa_first [of s E q b] LeakByte_ca_first [of E s q' b] by blast

lemma always_ex: "fst (AddHitAndRecomputeScores (env_ex True) x) = (True, CHR ''x'')"
  by (simp add: env_ex_def split: prod.splits)

theorem LeakByte_decides_at_once_witness:
  "false_value state_ex = False \<and> frames_near (env_ex True) \<and>
   (\<exists>q. first_query_sa (env_ex True) state_ex = Some q \<and>
        fst (AddHitAndRecomputeScores (env_ex True) q) = (True, CHR ''x'')) \<and>
   (\<exists>q. first_query_ca (env_ex True) state_ex = Some q \<and>
        fst (AddHitAndRecomputeScores (env_ex True) q) = (True, CHR ''x'')) \<and>
   (\<exists>s'. LeakByte_sa (env_ex True) state_ex = Inr (CHR ''x'', s') \<and> one_trial state_ex s') \<and>
   (\<exists>s'. LeakByte_ca (env_ex True) state_ex = Some (Inr (CHR ''x'', s')) \<and> one_trial state_ex s')"
proof -
  have fv: "false_value state_ex = False" by (simp add: state_ex_def)
  from first_query_sa_defined [OF fv, of "env_ex True"] obtain q where
    q: "first_query_sa (env_ex True) state_ex = Some q" by blast
  from first_query_ca_defined [OF frames_near_ex, of True state_ex] obtain q' where
    q': "first_query_ca (env_ex True) state_ex = Some q'" by blast
  from LeakByte_decides_at_once [of state_ex "env_ex True" q "CHR ''x''" q'] fv q q' always_ex frames_near_ex [of True]
  show ?thesis by simp
qed
section \<open>Properties of the whole programs\<close>

lemma LeakByte_fail:
  assumes "\<forall>x. \<not> fst (fst (AddHitAndRecomputeScores E x))"
  shows "false_value s = False \<Longrightarrow>
           \<exists>s' g. LeakByte_sa E s = Inl (ConvergenceExit 100001, s') \<and>
                last_decision s' = Some (False, g) \<and>
                (\<exists>x. g = snd (fst (AddHitAndRecomputeScores E x))) \<and>
                cerr s' = cerr s @ ''Does not converge '' @ [g, CHR 0x0A] \<and>
                cout s' = cout s \<and> current_offset s' = current_offset s"
    and "frames_near E \<Longrightarrow>
           \<exists>s' g. LeakByte_ca E s = Some (Inl (ConvergenceExit 100001, s')) \<and>
                last_decision s' = Some (False, g) \<and>
                (\<exists>x. g = snd (fst (AddHitAndRecomputeScores E x))) \<and>
                cerr s' = cerr s @ ''Does not converge '' @ [g, CHR 0x0A] \<and>
                cout s' = cout s \<and> current_offset s' = current_offset s"
proof -
  {
    assume "false_value s = False"
    from loop_post_never [OF LeakByte_sa_post [OF this] assms]
    show "\<exists>s' g. LeakByte_sa E s = Inl (ConvergenceExit 100001, s') \<and>
                last_decision s' = Some (False, g) \<and>
                (\<exists>x. g = snd (fst (AddHitAndRecomputeScores E x))) \<and>
                cerr s' = cerr s @ ''Does not converge '' @ [g, CHR 0x0A] \<and>
                cout s' = cout s \<and> current_offset s' = current_offset s"
      by simp blast
  next
    assume "frames_near E"
    from LeakByte_ca_post [OF this, of s] obtain r where
      "LeakByte_ca E s = Some r" "loop_post E 0 (s\<lparr>oracle_ptr := GetOracle E (sidechannel_new E)\<rparr>) r"
      by blast
    with loop_post_never [OF this(2) assms]
    show "\<exists>s' g. LeakByte_ca E s = Some (Inl (ConvergenceExit 100001, s')) \<and>
                last_decision s' = Some (False, g) \<and>
                (\<exists>x. g = snd (fst (AddHitAndRecomputeScores E x))) \<and>
                cerr s' = cerr s @ ''Does not converge '' @ [g, CHR 0x0A] \<and>
                cout s' = cout s \<and> current_offset s' = current_offset s"
      by simp blast
  }
qed

lemma main_loop_fail:
  assumes "\<forall>x. \<not> fst (fst (AddHitAndRecomputeScores E x))"
  shows "false_value s = False \<Longrightarrow> i < length (private_data E) \<Longrightarrow>
           \<exists>s' g. main_loop_sa E i s = Inl (ConvergenceExit 100001, s') \<and>
                  last_decision s' = Some (False, g) \<and> aborted_at i g s s'"
    and "frames_near E \<Longrightarrow> i < length private_data_ca \<Longrightarrow>
           \<exists>s' g. main_loop_ca E i s = Some (Inl (ConvergenceExit 100001, s')) \<and>
                  last_decision s' = Some (False, g) \<and> aborted_at i g s s'"
proof -
  {
    assume "false_value s = False" and i: "i < length (private_data E)"
    then have "false_value (s\<lparr>current_offset := i\<rparr>) = False" by simp
    from LeakByte_fail(1) [OF assms this] i
    show "\<exists>s' g. main_loop_sa E i s = Inl (ConvergenceExit 100001, s') \<and>
            last_decision s' = Some (False, g) \<and> aborted_at i g s s'"
      by (subst main_loop_sa.simps) (auto simp: aborted_at_def)
  next
    assume "frames_near E" and i: "i < length private_data_ca"
    from LeakByte_fail(2) [OF assms this(1), of "s\<lparr>current_offset := i\<rparr>"] i
    show "\<exists>s' g. main_loop_ca E i s = Some (Inl (ConvergenceExit 100001, s')) \<and>
            last_decision s' = Some (False, g) \<and> aborted_at i g s s'"
      by (subst main_loop_ca.simps) (auto simp: aborted_at_def)
  }
qed

text \<open>
  C2, as amended. When the side channel never decides, whatever it guesses from one
  trial to the next, the run stops at the offset \<open>i\<close> it has come to with the
  convergence failure. The report on \<^verbatim>\<open>std::cerr\<close> is the text
  \<^verbatim>\<open>Does not converge\<close> followed by the guess of the last answer of the side channel;
  it does not name the offset. Nothing is written to \<^verbatim>\<open>std::cout\<close> for this offset or
  a later one. From the start of \<^verbatim>\<open>main\<close> the failure comes at offset 0, after the
  banner.
\<close>

theorem convergence_failure_aborts:
  assumes "\<forall>x. \<not> fst (fst (AddHitAndRecomputeScores E x))"
  shows "(false_value s = False \<and> i < length (private_data E) \<longrightarrow>
            (\<exists>s' g. main_loop_sa E i s = Inl (ConvergenceExit 100001, s') \<and>
                    last_decision s' = Some (False, g) \<and> aborted_at i g s s')) \<and>
         (frames_near E \<and> i < length private_data_ca \<longrightarrow>
            (\<exists>s' g. main_loop_ca E i s = Some (Inl (ConvergenceExit 100001, s')) \<and>
                    last_decision s' = Some (False, g) \<and> aborted_at i g s s')) \<and>
         (false_value s = False \<and> private_data E \<noteq> [] \<longrightarrow>
            (\<exists>s' g. main_sa E s = Inl (ConvergenceExit 100001, s') \<and>
                    last_decision s' = Some (False, g) \<and>
                    aborted_at 0 g (s\<lparr>cout := cout s @ ''Leaking the string: ''\<rparr>) s')) \<and>
         (frames_near E \<and> sched_setaffinity E = 0 \<longrightarrow>
            (\<exists>s' g. main_ca E s = Some (Inl (ConvergenceExit 100001, s')) \<and>
                    last_decision s' = Some (False, g) \<and>
                    aborted_at 0 g (s\<lparr>cout := cout s @ ''Leaking the string: ''\<rparr>) s'))"
proof (intro conjI impI)
  assume "false_value s = False \<and> i < length (private_data E)"
  then show "\<exists>s' g. main_loop_sa E i s = Inl (ConvergenceExit 100001, s') \<and>
               last_decision s' = Some (False, g) \<and> aborted_at i g s s'"
    using main_loop_fail(1) [OF assms] by blast
next
  assume "frames_near E \<and> i < length private_data_ca"
  then show "\<exists>s' g. main_loop_ca E i s = Some (Inl (ConvergenceExit 100001, s')) \<and>
               last_decision s' = Some (False, g) \<and> aborted_at i g s s'"
    using main_loop_fail(2) [OF assms] by blast
next
  assume a: "false_value s = False \<and> private_data E \<noteq> []"
  then have "false_value (s\<lparr>cout := cout s @ ''Leaking the string: ''\<rparr>) = False"
    "0 < length (private_data E)"
    by simp_all
  from main_loop_fail(1) [OF assms this]
  show "\<exists>s' g. main_sa E s = Inl (ConvergenceExit 100001, s') \<and>
          last_decision s' = Some (False, g) \<and>
          aborted_at 0 g (s\<lparr>cout := cout s @ ''Leaking the string: ''\<rparr>) s'"
    by (auto simp: main_sa_def)
next
  assume a: "frames_near E \<and> sched_setaffinity E = 0"
  have "0 < length private_data_ca" by (simp add: private_data_ca_def)
  from main_loop_fail(2) [OF assms _ this, of "s\<lparr>cout := cout s @ ''Leaking the string: ''\<rparr>"] a
  show "\<exists>s' g. main_ca E s = Some (Inl (ConvergenceExit 100001, s')) \<and>
          last_decision s' = Some (False, g) \<and>
          aborted_at 0 g (s\<lparr>cout := cout s @ ''Leaking the string: ''\<rparr>) s'"
    by (auto simp: main_ca_def)
qed

text \<open>
  The side channel of \<open>env_count\<close> guesses a new character at every query. The loop
  of \<^verbatim>\<open>LeakByte\<close>, entered with \<open>run\<close> and the query count \<open>sc\<close>, reports the guess of
  the query it exits on.
\<close>

lemma never_count: "\<forall>x. \<not> fst (fst (AddHitAndRecomputeScores env_count x))"
  by (simp add: env_count_def env_ex_def split: prod.splits)

lemma count_loop_sa:
  assumes "E = env_count" "false_value s = False" "run \<le> 100001"
  shows "\<exists>s'. LeakByte_loop_sa E run sc s = Inl (ConvergenceExit 100001, s') \<and>
           cerr s' = cerr s @ ''Does not converge '' @ [char_of (sc + nat (100001 - run)), CHR 0x0A]"
  using assms
proof (induction E run sc s rule: LeakByte_loop_sa.induct)
  case (1 E run sc s)
  note E = "1.prems"(1)
  have fo: "fst (FlushOracle E (sc, cache s)) = sc"
    by (simp add: E env_count_def env_ex_def)
  from LeakByte_trial_sa_ok [OF "1.prems"(2), of E sc] obtain c1 evs1 where
    t: "LeakByte_trial_sa E sc s =
          Inr (sc, s\<lparr>cache := c1, trace := trace s @ (OracleFlushed, live s, length (stack_mark_pointers s)) # evs1\<rparr>)"
    unfolding fo by blast
  define s1 where "s1 = s\<lparr>cache := c1, trace := trace s @ (OracleFlushed, live s, length (stack_mark_pointers s)) # evs1\<rparr>"
  have a: "AddHitAndRecomputeScores E (sc, cache s1) = ((False, char_of sc), sc + 1, cache s1)"
    by (simp add: E env_count_def env_ex_def)
  define s2 where "s2 = s1\<lparr>cache := cache s1,
      trace := trace s1 @ [(HitAdded False (char_of sc), live s1, length (stack_mark_pointers s1))]\<rparr>"
  note dec = decide_eq [OF a, of run, folded s2_def]
  show ?case
  proof (cases "run > 100000")
    case True
    with "1.prems"(3) have run: "run = 100001" by simp
    have "LeakByte_loop_sa E run sc s =
            Inl (ConvergenceExit run, s2\<lparr>cerr := cerr s2 @ ''Does not converge '' @ [char_of sc, CHR 0x0A]\<rparr>)"
      using True by (subst LeakByte_loop_sa.simps) (simp add: t s1_def [symmetric] dec s2_def)
    then show ?thesis by (simp add: run s2_def s1_def)
  next
    case False
    have step: "LeakByte_loop_sa E run sc s = LeakByte_loop_sa E (run + 1) (sc + 1) s2"
      using False by (subst LeakByte_loop_sa.simps) (simp add: t s1_def [symmetric] dec)
    have d2: "decide E run sc s1 = Inr (Inl (sc + 1, s2))"
      using False by (simp add: dec)
    have ih: "\<exists>s'. LeakByte_loop_sa E (run + 1) (sc + 1) s2 = Inl (ConvergenceExit 100001, s') \<and>
           cerr s' = cerr s2 @ ''Does not converge '' @ [char_of (sc + 1 + nat (100001 - (run + 1))), CHR 0x0A]"
      using "1.prems" False
      by (intro "1.IH" [OF t [folded s1_def] refl d2 refl refl]) (simp_all add: s2_def s1_def)
    have eq: "sc + 1 + nat (100001 - (run + 1)) = sc + nat (100001 - run)"
      using False by simp
    have c2: "cerr s2 = cerr s" by (simp add: s2_def s1_def)
    from ih show ?thesis unfolding step eq c2 .
  qed
qed

lemma count_report:
  "cerr (final_state (main_sa env_count state_ex)) =
     ''Does not converge '' @ [char_of (100001 :: nat), CHR 0x0A]"
proof -
  define s0 where "s0 = state_ex\<lparr>cout := cout state_ex @ ''Leaking the string: '', current_offset := 0,
      oracle_ptr := GetOracle env_count (sidechannel_new env_count)\<rparr>"
  have "false_value s0 = False" by (simp add: s0_def state_ex_def)
  from count_loop_sa [OF refl this, of 0 0] obtain s' where
    s': "LeakByte_loop_sa env_count 0 0 s0 = Inl (ConvergenceExit 100001, s')"
    "cerr s' = cerr s0 @ ''Does not converge '' @ [char_of (100001 :: nat), CHR 0x0A]"
    by auto
  have "sidechannel_new env_count = 0" "0 < length (private_data env_count)"
    by (simp_all add: env_count_def env_ex_def)
  then have "main_sa env_count state_ex = Inl (ConvergenceExit 100001, s')"
    using s'(1)
    by (simp add: main_sa_def LeakByte_sa_def s0_def, subst main_loop_sa.simps)
       (simp add: LeakByte_sa_def)
  with s'(2) show ?thesis by (simp add: final_state_def s0_def state_ex_def)
qed

lemma count_first_last: "char_of (100001 :: nat) \<noteq> (char_of (0 :: nat) :: char)"
proof
  assume "char_of (100001 :: nat) = (char_of (0 :: nat) :: char)"
  then have "(of_char (char_of (100001 :: nat) :: char) :: nat) = of_char (char_of (0 :: nat) :: char)"
    by simp
  then show False by simp
qed

theorem convergence_failure_aborts_witness:
  "(\<forall>x. \<not> fst (fst (AddHitAndRecomputeScores env_count x))) \<and>
   false_value state_ex = False \<and> 1 < length (private_data env_count) \<and>
   frames_near env_count \<and> 1 < length private_data_ca \<and>
   private_data env_count \<noteq> [] \<and> sched_setaffinity env_count = 0 \<and>
   (\<exists>s' g. main_loop_sa env_count 1 state_ex = Inl (ConvergenceExit 100001, s') \<and>
           last_decision s' = Some (False, g) \<and> aborted_at 1 g state_ex s') \<and>
   (\<exists>s' g. main_loop_ca env_count 1 state_ex = Some (Inl (ConvergenceExit 100001, s')) \<and>
           last_decision s' = Some (False, g) \<and> aborted_at 1 g state_ex s') \<and>
   (\<exists>s' g. main_sa env_count state_ex = Inl (ConvergenceExit 100001, s') \<and>
           last_decision s' = Some (False, g) \<and>
           aborted_at 0 g (state_ex\<lparr>cout := cout state_ex @ ''Leaking the string: ''\<rparr>) s') \<and>
   (\<exists>s' g. main_ca env_count state_ex = Some (Inl (ConvergenceExit 100001, s')) \<and>
           last_decision s' = Some (False, g) \<and>
           aborted_at 0 g (state_ex\<lparr>cout := cout state_ex @ ''Leaking the string: ''\<rparr>) s') \<and>
   cerr (final_state (main_sa env_count state_ex)) =
     ''Does not converge '' @ [char_of (100001 :: nat), CHR 0x0A] \<and>
   char_of (100001 :: nat) \<noteq> (char_of (0 :: nat) :: char)"
proof -
  have h: "false_value state_ex = False" "1 < length (private_data env_count)"
    "1 < length private_data_ca" "private_data env_count \<noteq> []"
    "sched_setaffinity env_count = 0" "frames_near env_count"
    by (simp_all add: state_ex_def env_count_def env_ex_def private_data_ca_def frames_near_def
        kCacheLineSize_def)
  from convergence_failure_aborts [OF never_count, of state_ex 1] h never_count
    count_report count_first_last
  show ?thesis by simp
qed

lemma guess_ex: "snd (fst (AddHitAndRecomputeScores (env_ex False) x)) = CHR ''x''"
  by (simp add: env_ex_def split: prod.splits)

text \<open>
  C2 as stated fails: the report made at offset 1 is, character for character, the
  report made at offset 0. It holds the guess and no offset.
\<close>

theorem convergence_report_counterexample:
  "cerr (final_state (LeakByte_sa (env_ex False) (state_ex\<lparr>current_offset := 0\<rparr>))) =
     ''Does not converge x'' @ [CHR 0x0A] \<and>
   cerr (final_state (LeakByte_sa (env_ex False) (state_ex\<lparr>current_offset := 1\<rparr>))) =
     ''Does not converge x'' @ [CHR 0x0A]"
proof -
  have "cerr (final_state (LeakByte_sa (env_ex False) (state_ex\<lparr>current_offset := k\<rparr>))) =
          ''Does not converge x'' @ [CHR 0x0A]" for k
  proof -
    have "false_value (state_ex\<lparr>current_offset := k\<rparr>) = False" by (simp add: state_ex_def)
    from LeakByte_fail(1) [OF never_ex this] show ?thesis
      by (auto simp: final_state_def state_ex_def guess_ex)
  qed
  then show ?thesis by simp
qed

lemma loop_post_points:
  assumes "loop_post E run s0 r" "stack_mark_pointers s0 = []" "live s0 = 0"
    and "trace s0 = trace s"
  shows "\<exists>evs. trace (final_state r) = trace s @ evs \<and> list_all point_ok evs \<and>
           stack_mark_pointers (final_state r) = [] \<and> live (final_state r) = 0 \<and>
           (\<forall>s'. r \<noteq> Inl (EmptyVector, s'))"
proof -
  from assms(1-3) obtain evs where
    f: "final_state r = s0\<lparr>cache := cache (final_state r), cerr := cerr (final_state r), trace := trace s0 @ evs\<rparr>"
    and p: "list_all point_ok evs"
    and c: "case r of
           Inr (c, s') \<Rightarrow> cerr s' = cerr s0 \<and> 0 < hits evs
         | Inl (e, s') \<Rightarrow> e = ConvergenceExit 100001 \<and> hits evs = nat (100002 - run) \<and>
             (\<exists>evs' g d n x. evs = evs' @ [(HitAdded False g, d, n)] \<and>
                 g = snd (fst (AddHitAndRecomputeScores E x)) \<and>
                 cerr s' = cerr s0 @ ''Does not converge '' @ [g, CHR 0x0A])"
    unfolding loop_post_def by blast
  have "trace (final_state r) = trace s @ evs" by (subst f) (simp add: assms(4))
  moreover have "stack_mark_pointers (final_state r) = []" "live (final_state r) = 0"
    by (subst f, simp add: assms)+
  moreover have "\<forall>s'. r \<noteq> Inl (EmptyVector, s')" using c by auto
  ultimately show ?thesis using p by blast
qed

text \<open>
  C4, as amended. \<^verbatim>\<open>LeakByte\<close> is entered outside any run: the vector is empty and no
  activation of \<^verbatim>\<open>ReturnsTrue\<close> is live. Then every point of the call is as
  \<open>point_ok\<close> says. After each push and at the yield the length of the vector is the
  number of live activations plus one, for the mark of \<^verbatim>\<open>LeakByte\<close>. At the entry
  of an activation, and from its \<^verbatim>\<open>pop_back\<close> until it returns (its calls of
  \<^verbatim>\<open>back\<close> and its flushes), the length is the number of live activations, the
  activation itself among them, and is not 0. The vector is empty only at the flush of
  the oracle, after the mark of \<^verbatim>\<open>LeakByte\<close> is popped, and at the decision. No
  \<^verbatim>\<open>pop_back\<close> and no \<^verbatim>\<open>back\<close> finds it empty, and it is empty when \<^verbatim>\<open>LeakByte\<close>
  stops.
\<close>

theorem LeakByte_tracker_points:
  assumes "stack_mark_pointers s = []" "live s = 0"
  shows "(false_value s = False \<longrightarrow>
            (\<exists>evs. trace (final_state (LeakByte_sa E s)) = trace s @ evs \<and> list_all point_ok evs \<and>
               stack_mark_pointers (final_state (LeakByte_sa E s)) = [] \<and>
               live (final_state (LeakByte_sa E s)) = 0 \<and>
               (\<forall>s'. LeakByte_sa E s \<noteq> Inl (EmptyVector, s')))) \<and>
         (frames_near E \<longrightarrow>
            (\<exists>r evs. LeakByte_ca E s = Some r \<and>
               trace (final_state r) = trace s @ evs \<and> list_all point_ok evs \<and>
               stack_mark_pointers (final_state r) = [] \<and> live (final_state r) = 0 \<and>
               (\<forall>s'. r \<noteq> Inl (EmptyVector, s'))))"
proof (intro conjI impI)
  assume "false_value s = False"
  from loop_post_points [OF LeakByte_sa_post [OF this], of E s] assms
  show "\<exists>evs. trace (final_state (LeakByte_sa E s)) = trace s @ evs \<and> list_all point_ok evs \<and>
               stack_mark_pointers (final_state (LeakByte_sa E s)) = [] \<and>
               live (final_state (LeakByte_sa E s)) = 0 \<and>
               (\<forall>s'. LeakByte_sa E s \<noteq> Inl (EmptyVector, s'))"
    by simp
next
  assume "frames_near E"
  from LeakByte_ca_post [OF this, of s] obtain r where
    r: "LeakByte_ca E s = Some r" "loop_post E 0 (s\<lparr>oracle_ptr := GetOracle E (sidechannel_new E)\<rparr>) r"
    by blast
  from loop_post_points [OF r(2), of s] assms r(1)
  show "\<exists>r evs. LeakByte_ca E s = Some r \<and>
               trace (final_state r) = trace s @ evs \<and> list_all point_ok evs \<and>
               stack_mark_pointers (final_state r) = [] \<and> live (final_state r) = 0 \<and>
               (\<forall>s'. r \<noteq> Inl (EmptyVector, s'))"
    by simp
qed

theorem LeakByte_tracker_points_witness:
  "stack_mark_pointers state_ex = [] \<and> live state_ex = 0 \<and> false_value state_ex = False \<and>
   frames_near (env_ex False) \<and>
   (\<exists>evs. trace (final_state (LeakByte_sa (env_ex False) state_ex)) = trace state_ex @ evs \<and>
      list_all point_ok evs \<and>
      stack_mark_pointers (final_state (LeakByte_sa (env_ex False) state_ex)) = [] \<and>
      live (final_state (LeakByte_sa (env_ex False) state_ex)) = 0 \<and>
      (\<forall>s'. LeakByte_sa (env_ex False) state_ex \<noteq> Inl (EmptyVector, s'))) \<and>
   (\<exists>r evs. LeakByte_ca (env_ex False) state_ex = Some r \<and>
      trace (final_state r) = trace state_ex @ evs \<and> list_all point_ok evs \<and>
      stack_mark_pointers (final_state r) = [] \<and> live (final_state r) = 0 \<and>
      (\<forall>s'. r \<noteq> Inl (EmptyVector, s')))"
proof -
  have h: "stack_mark_pointers state_ex = []" "live state_ex = 0" "false_value state_ex = False"
    by (simp_all add: state_ex_def)
  from LeakByte_tracker_points [OF h(1,2), of "env_ex False"] h frames_near_ex [of False]
  show ?thesis by simp
qed

text \<open>
  C4 as stated fails: when the outermost activation of \<^verbatim>\<open>ReturnsTrue\<close> calls
  \<^verbatim>\<open>back\<close>, one activation is live and the vector holds one mark, not two.
\<close>

theorem tracker_length_counterexample:
  "(Back 1000000, 1, 1) \<in> set (trace (final_state (LeakByte_trial_sa (env_ex False) 0 state_ex))) \<and>
   \<not> claimed_point (Back 1000000, 1, 1)"
proof -
  have "false_value state_ex = False" by (simp add: state_ex_def)
  from LeakByte_trial_sa_ok [OF this, of "env_ex False" 0] obtain c' evs where
    "LeakByte_trial_sa (env_ex False) 0 state_ex =
       Inr (fst (FlushOracle (env_ex False) (0, cache state_ex)),
            state_ex\<lparr>cache := c', trace := trace state_ex @
               (OracleFlushed, live state_ex, length (stack_mark_pointers state_ex)) # evs\<rparr>)"
    "(Back (frame_mark (env_ex False) (live state_ex)), live state_ex + 1,
        length (stack_mark_pointers state_ex) + 1) \<in> set evs"
    by blast
  then show ?thesis
    by (simp add: final_state_def) (simp add: state_ex_def env_ex_def)
qed

lemma loop_post_safe:
  assumes "loop_post E run s0 r"
  shows "count_events is_ForceRead (final_state r) = count_events is_ForceRead s0"
    and "false_value (final_state r) = false_value s0"
    and "\<forall>s'. r \<noteq> Inl (DeadCodeExit, s')"
proof -
  from assms obtain evs where
    f: "final_state r = s0\<lparr>cache := cache (final_state r), cerr := cerr (final_state r), trace := trace s0 @ evs\<rparr>"
    and n: "list_all (\<lambda>p. \<not> is_ForceRead (fst p)) evs"
    and c: "case r of
           Inr (c, s') \<Rightarrow> cerr s' = cerr s0 \<and> 0 < hits evs
         | Inl (e, s') \<Rightarrow> e = ConvergenceExit 100001 \<and> hits evs = nat (100002 - run) \<and>
             (\<exists>evs' g d n x. evs = evs' @ [(HitAdded False g, d, n)] \<and>
                 g = snd (fst (AddHitAndRecomputeScores E x)) \<and>
                 cerr s' = cerr s0 @ ''Does not converge '' @ [g, CHR 0x0A])"
    unfolding loop_post_def by blast
  have "trace (final_state r) = trace s0 @ evs" by (subst f) simp
  from count_events_ext [OF this, of is_ForceRead] n
  show "count_events is_ForceRead (final_state r) = count_events is_ForceRead s0"
    by (simp add: list_all_iff filter_empty_conv [THEN iffD2])
  show "false_value (final_state r) = false_value s0" by (subst f) simp
  show "\<forall>s'. r \<noteq> Inl (DeadCodeExit, s')" using c by auto
qed

lemma main_loop_sa_safe:
  assumes "false_value s = False"
  shows "count_events is_ForceRead (final_state (main_loop_sa E i s)) = count_events is_ForceRead s \<and>
         (\<forall>s'. main_loop_sa E i s \<noteq> Inl (DeadCodeExit, s'))"
  using assms
proof (induction E i s rule: main_loop_sa.induct)
  case (1 E i s)
  show ?case
  proof (cases "i < length (private_data E)")
    case False
    then show ?thesis by (subst (1 2) main_loop_sa.simps) (simp add: final_state_def)
  next
    case True
    define s0 where "s0 = s\<lparr>current_offset := i\<rparr>"
    have fv: "false_value s0 = False" using "1.prems" by (simp add: s0_def)
    note safe = loop_post_safe [OF LeakByte_sa_post [OF fv, of E]]
    show ?thesis
    proof (cases "LeakByte_sa E s0")
      case (Inl e)
      with True have "main_loop_sa E i s = Inl e"
        by (subst main_loop_sa.simps) (simp add: s0_def)
      with safe Inl show ?thesis by (cases e) (simp add: s0_def final_state_def)
    next
      case (Inr p)
      obtain c s1 where p: "p = (c, s1)" by (cases p)
      with Inr True have step: "main_loop_sa E i s = main_loop_sa E (i + 1) (s1\<lparr>cout := cout s1 @ [c]\<rparr>)"
        by (subst main_loop_sa.simps) (simp add: s0_def)
      from safe Inr p have s1: "count_events is_ForceRead s1 = count_events is_ForceRead s"
        "false_value s1 = False"
        using fv by (simp_all add: final_state_def s0_def)
      from "1.IH" [OF True Inr [unfolded s0_def] p [symmetric]] s1
      show ?thesis unfolding step by simp
    qed
  qed
qed

lemma main_loop_ca_safe:
  assumes "frames_near E"
  shows "\<exists>r. main_loop_ca E i s = Some r \<and>
           count_events is_ForceRead (final_state r) = count_events is_ForceRead s \<and>
           (\<forall>s'. r \<noteq> Inl (DeadCodeExit, s'))"
  using assms
proof (induction E i s rule: main_loop_ca.induct)
  case (1 E i s)
  show ?case
  proof (cases "i < length private_data_ca")
    case False
    then show ?thesis by (subst main_loop_ca.simps) (simp add: final_state_def)
  next
    case True
    define s0 where "s0 = s\<lparr>current_offset := i\<rparr>"
    from LeakByte_ca_post [OF "1.prems", of s0] obtain r0 where
      r0: "LeakByte_ca E s0 = Some r0"
      and post: "loop_post E 0 (s0\<lparr>oracle_ptr := GetOracle E (sidechannel_new E)\<rparr>) r0"
      by blast
    note safe = loop_post_safe [OF post]
    show ?thesis
    proof (cases r0)
      case (Inl e)
      with True r0 have "main_loop_ca E i s = Some (Inl e)"
        by (subst main_loop_ca.simps) (simp add: s0_def)
      with safe Inl show ?thesis by (cases e) (simp add: s0_def final_state_def)
    next
      case (Inr p)
      obtain c s1 where p: "p = (c, s1)" by (cases p)
      with Inr True r0 have step: "main_loop_ca E i s = main_loop_ca E (i + 1) (s1\<lparr>cout := cout s1 @ [c]\<rparr>)"
        by (subst main_loop_ca.simps) (simp add: s0_def)
      from safe Inr p have s1: "count_events is_ForceRead s1 = count_events is_ForceRead s"
        by (simp_all add: final_state_def s0_def)
      from "1.IH" [OF True r0 [unfolded s0_def] Inr p [symmetric] "1.prems"] s1
      show ?thesis unfolding step by simp
    qed
  qed
qed

text \<open>
  C6. With \<^verbatim>\<open>false_value\<close> at its initial value, no call of \<^verbatim>\<open>ReturnsFalse\<close>, at any
  depth, enters the body of the inner \<^verbatim>\<open>if\<close>: the call returns (it does not exit), no
  forced read is made, nothing is printed on \<^verbatim>\<open>std::cout\<close> and the cache is as before.
  So it is in a whole run of either \<^verbatim>\<open>main\<close>, whatever the side channel does: the
  forced read, which is the first statement of that body, is never made, and the run
  never stops at that \<^verbatim>\<open>exit\<close>.
\<close>

theorem dead_code_unreachable:
  assumes "false_value s = False"
  shows "(\<exists>s'. ReturnsFalse_sa E counter s = Inr (False, s') \<and>
            count_events is_ForceRead s' = count_events is_ForceRead s \<and>
            cout s' = cout s \<and> cache s' = cache s) \<and>
         (\<exists>s'. ReturnsFalse_ca E counter s = Inr (False, s') \<and>
            count_events is_ForceRead s' = count_events is_ForceRead s \<and>
            cout s' = cout s \<and> cache s' = cache s) \<and>
         count_events is_ForceRead (final_state (main_sa E s)) = count_events is_ForceRead s \<and>
         (\<forall>s'. main_sa E s \<noteq> Inl (DeadCodeExit, s')) \<and>
         (frames_near E \<longrightarrow>
            (\<exists>r. main_ca E s = Some r \<and>
               count_events is_ForceRead (final_state r) = count_events is_ForceRead s \<and>
               (\<forall>s'. r \<noteq> Inl (DeadCodeExit, s'))))"
proof -
  have rf: "(\<exists>s'. ReturnsFalse_sa E counter s = Inr (False, s') \<and>
            count_events is_ForceRead s' = count_events is_ForceRead s \<and>
            cout s' = cout s \<and> cache s' = cache s) \<and>
         (\<exists>s'. ReturnsFalse_ca E counter s = Inr (False, s') \<and>
            count_events is_ForceRead s' = count_events is_ForceRead s \<and>
            cout s' = cout s \<and> cache s' = cache s)"
    using assms by (simp add: ReturnsFalse_sa_eq ReturnsFalse_ca_eq sched_yield_def)
  define s0 where "s0 = s\<lparr>cout := cout s @ ''Leaking the string: ''\<rparr>"
  have fv: "false_value s0 = False" using assms by (simp add: s0_def)
  have sa: "count_events is_ForceRead (final_state (main_sa E s)) = count_events is_ForceRead s \<and>
         (\<forall>s'. main_sa E s \<noteq> Inl (DeadCodeExit, s'))"
    using main_loop_sa_safe [OF fv, of E 0]
    by (cases "main_loop_sa E 0 s0") (auto simp: main_sa_def s0_def [symmetric] final_state_def, simp_all add: s0_def)
  have ca: "\<exists>r. main_ca E s = Some r \<and>
               count_events is_ForceRead (final_state r) = count_events is_ForceRead s \<and>
               (\<forall>s'. r \<noteq> Inl (DeadCodeExit, s'))" if "frames_near E"
  proof (cases "sched_setaffinity E = 0")
    case False
    then show ?thesis by (simp add: main_ca_def final_state_def)
  next
    case True
    from main_loop_ca_safe [OF that, of 0 s0] obtain r where
      r: "main_loop_ca E 0 s0 = Some r"
      "count_events is_ForceRead (final_state r) = count_events is_ForceRead s0"
      "\<forall>s'. r \<noteq> Inl (DeadCodeExit, s')"
      by blast
    with True show ?thesis
      by (cases r) (auto simp: main_ca_def s0_def [symmetric] final_state_def, simp_all add: s0_def)
  qed
  from rf sa ca show ?thesis by blast
qed

theorem dead_code_unreachable_witness:
  "false_value state_ex = False \<and> frames_near (env_ex True) \<and>
   (\<exists>s'. ReturnsFalse_sa (env_ex True) 64 state_ex = Inr (False, s') \<and>
      count_events is_ForceRead s' = count_events is_ForceRead state_ex \<and>
      cout s' = cout state_ex \<and> cache s' = cache state_ex) \<and>
   (\<exists>s'. ReturnsFalse_ca (env_ex True) 64 state_ex = Inr (False, s') \<and>
      count_events is_ForceRead s' = count_events is_ForceRead state_ex \<and>
      cout s' = cout state_ex \<and> cache s' = cache state_ex) \<and>
   count_events is_ForceRead (final_state (main_sa (env_ex True) state_ex)) =
     count_events is_ForceRead state_ex \<and>
   (\<forall>s'. main_sa (env_ex True) state_ex \<noteq> Inl (DeadCodeExit, s')) \<and>
   (\<exists>r. main_ca (env_ex True) state_ex = Some r \<and>
      count_events is_ForceRead (final_state r) = count_events is_ForceRead state_ex \<and>
      (\<forall>s'. r \<noteq> Inl (DeadCodeExit, s')))"
proof -
  have h: "false_value state_ex = False" by (simp add: state_ex_def)
  from dead_code_unreachable [OF h, of "env_ex True" 64] h frames_near_ex [of True]
  show ?thesis by simp
qed
end
